theory Spec2Isabelle
  imports Main "HOL-Library.Word"
begin

unbundle bit_operations_syntax

section \<open>The trace stream decoder of common/trace\_parser.cpp\<close>

text \<open>
  Integer types follow the LP64 data model: \<open>unsigned\<close> and \<open>int\<close> are 32 bits wide,
  \<open>size_t\<close> and \<open>unsigned long long\<close> are 64 bits wide. Conversions between them are
  written out as \<open>ucast\<close>. Memory exhaustion (a failing \<open>new\<close> or \<open>resize\<close>), the
  diagnostics written to \<open>std::cerr\<close> and the release of memory are outside the model;
  so is \<open>Parser::close\<close>, which ends a decoding session.
\<close>

type_synonym byte = "8 word"
type_synonym u32 = "32 word"
type_synonym u64 = "64 word"

subsection \<open>The byte source\<close>

text \<open>
  Modelled from the spec: the class \<open>File\<close> (trace\_file.hpp) is not part of the sources.
  The spec (4.1, 6) asks for a random-access byte stream with \<open>getc\<close> (-1 at the end of the
  stream), \<open>read\<close> and \<open>skip\<close> (silently truncated at the end of the stream),
  \<open>currentOffset\<close> and \<open>setCurrentOffset\<close>. The stream is the list of its bytes and a
  cursor; \<open>getc\<close> returns \<open>None\<close> for -1.
\<close>

record File =
  contents :: "byte list"
  cur :: nat

definition remaining :: "File \<Rightarrow> nat" where
  "remaining f = length (contents f) - cur f"

definition getc :: "File \<Rightarrow> byte option \<times> File" where
  "getc f = (if cur f < length (contents f)
             then (Some (contents f ! cur f), f\<lparr>cur := cur f + 1\<rparr>)
             else (None, f))"

definition file_read :: "nat \<Rightarrow> File \<Rightarrow> byte list \<times> File" where
  "file_read n f = (take n (drop (cur f) (contents f)), f\<lparr>cur := cur f + min n (remaining f)\<rparr>)"

definition file_skip :: "nat \<Rightarrow> File \<Rightarrow> File" where
  "file_skip n f = f\<lparr>cur := cur f + min n (remaining f)\<rparr>"

definition currentOffset :: "File \<Rightarrow> nat" where
  "currentOffset f = cur f"

definition setCurrentOffset :: "nat \<Rightarrow> File \<Rightarrow> File" where
  "setCurrentOffset off f = f\<lparr>cur := off\<rparr>"

subsection \<open>Variable-length integers\<close>

text \<open>
  \<open>Parser::read_uint\<close>: the do-while loop over \<open>getc\<close>. \<open>shift\<close> is an \<open>unsigned\<close> and
  the accumulated word is an \<open>unsigned long long\<close>. A shift by 64 or more, which a varint
  of more than ten bytes asks for, is undefined in the source; the model drops the bits
  shifted past bit 63, as spec 4.2 says.
\<close>

function read_uint_loop :: "File \<Rightarrow> u64 \<Rightarrow> u32 \<Rightarrow> u64 \<times> File" where
  "read_uint_loop f v shift =
     (case getc f of
        (None, f') \<Rightarrow> (v, f')
      | (Some c, f') \<Rightarrow>
          (let v' = v OR push_bit (unat shift) (ucast (c AND 0x7f));
               shift' = shift + 7
           in if c AND 0x80 \<noteq> 0 then read_uint_loop f' v' shift' else (v', f')))"
  by pat_completeness auto
termination
  by (relation "measure (\<lambda>(f, v, shift). remaining f)")
     (auto simp: getc_def remaining_def split: if_splits)

declare read_uint_loop.simps [simp del]

definition file_read_uint :: "File \<Rightarrow> u64 \<times> File" where
  "file_read_uint f = read_uint_loop f 0 0"

text \<open>\<open>Parser::skip_uint\<close>: the same loop without the accumulator.\<close>

function file_skip_uint :: "File \<Rightarrow> File" where
  "file_skip_uint f =
     (case getc f of
        (None, f') \<Rightarrow> f'
      | (Some c, f') \<Rightarrow> (if c AND 0x80 \<noteq> 0 then file_skip_uint f' else f'))"
  by pat_completeness auto
termination
  by (relation "measure remaining")
     (auto simp: getc_def remaining_def split: if_splits)

declare file_skip_uint.simps [simp del]

text \<open>
  Modelled from the spec: the encoder of a varint (the trace writer is not part of the
  sources). Spec 4.2 and the glossary: little-endian base-128, the high bit of each byte
  says that another byte follows, the low 7 bits carry the payload.
\<close>

function enc_uint :: "u64 \<Rightarrow> byte list" where
  "enc_uint u = (if u < 0x80 then [ucast u]
                 else (ucast (u AND 0x7f) OR 0x80) # enc_uint (drop_bit 7 u))"
  by pat_completeness auto
termination
proof (relation "measure unat")
  show "wf (measure (unat :: u64 \<Rightarrow> nat))" by simp
next
  fix u :: u64
  assume "\<not> u < 0x80"
  then have "128 \<le> unat u"
    by (simp add: word_less_nat_alt not_less)
  then have "unat u div 128 < unat u"
    by simp
  then show "(drop_bit 7 u, u) \<in> measure unat"
    by (simp add: drop_bit_eq_div unat_div)
qed

declare enc_uint.simps [simp del]


subsection \<open>Values, signatures and calls\<close>

text \<open>
  A pointer to a signature is its address together with the object it points to: the
  parser never changes a signature after it has stored it, and compares pointers by
  address only. \<open>next_addr\<close> is the next address \<open>new\<close> hands out.
\<close>

type_synonym 'a ptr = "nat \<times> 'a"

text \<open>
  Modelled from the spec: the signature structs and the value classes are declared in
  headers outside the sources (spec 3). Counts are \<open>unsigned\<close>, the type of the loop
  counters that run over them in trace\_parser.cpp; names are the bytes read, floats are
  kept as their raw bytes, signed 64-bit integers as 64-bit words.
\<close>

record FunctionSigState =
  fsig_id :: u64
  fsig_name :: "byte list"
  fsig_num_args :: u32
  fsig_arg_names :: "byte list list"
  fsig_flags :: u32
  fsig_offset :: nat

record StructSigState =
  ssig_id :: u64
  ssig_name :: "byte list"
  ssig_num_members :: u32
  ssig_member_names :: "byte list list"
  ssig_offset :: nat

record EnumSigState =
  esig_id :: u64
  esig_num_values :: u32
  esig_values :: "(byte list \<times> u64) list"
  esig_offset :: nat

record BitmaskSigState =
  bsig_id :: u64
  bsig_num_flags :: u32
  bsig_flags :: "(byte list \<times> u64) list"
  bsig_offset :: nat

datatype val =
    Null
  | Bool bool
  | SInt u64
  | UInt u64
  | Float "byte list"
  | Double "byte list"
  | String "byte list"
  | Enum "EnumSigState ptr" u64
  | Bitmask "BitmaskSigState ptr" u64
  | Array "val option list"
  | Struct "StructSigState ptr" "val option list"
  | Blob u64 "byte list"
  | Pointer u64

record Call =
  c_no :: u32
  c_thread_id :: u32
  c_sig :: "FunctionSigState ptr"
  c_flags :: u32
  c_args :: "val option list"
  c_ret :: "val option"
  c_call_time :: "val option"

record Parser =
  "file" :: File
  version :: u64
  next_call_no :: u32
  calls :: "Call list"
  "functions" :: "FunctionSigState ptr option list"
  structs :: "StructSigState ptr option list"
  enums :: "EnumSigState ptr option list"
  bitmasks :: "BitmaskSigState ptr option list"
  glGetErrorSig :: "FunctionSigState ptr option"
  next_addr :: nat

record ParseBookmark =
  bm_offset :: nat
  bm_next_call_no :: u32

text \<open>
  What the parser takes from outside the sources: the table \<open>lookupCallFlags\<close>, the
  conversion \<open>Value::toSInt\<close> and the two flag bits it sets.
\<close>

record externals =
  lookupCallFlags :: "byte list \<Rightarrow> u32"
  toSInt :: "val \<Rightarrow> u64"
  CALL_FLAG_INCOMPLETE :: u32
  CALL_FLAG_VERBOSE :: u32

text \<open>
  Modelled from the spec: the tag bytes of trace\_format.hpp, with the values of the
  spec's wire format summary (6).
\<close>

abbreviation EVENT_ENTER :: byte where "EVENT_ENTER \<equiv> 0"
abbreviation EVENT_LEAVE :: byte where "EVENT_LEAVE \<equiv> 1"
abbreviation CALL_ARG :: byte where "CALL_ARG \<equiv> 2"
abbreviation CALL_RET :: byte where "CALL_RET \<equiv> 3"
abbreviation CALL_END :: byte where "CALL_END \<equiv> 4"

abbreviation TYPE_NULL :: byte where "TYPE_NULL \<equiv> 0"
abbreviation TYPE_FALSE :: byte where "TYPE_FALSE \<equiv> 1"
abbreviation TYPE_TRUE :: byte where "TYPE_TRUE \<equiv> 2"
abbreviation TYPE_SINT :: byte where "TYPE_SINT \<equiv> 3"
abbreviation TYPE_UINT :: byte where "TYPE_UINT \<equiv> 4"
abbreviation TYPE_FLOAT :: byte where "TYPE_FLOAT \<equiv> 5"
abbreviation TYPE_DOUBLE :: byte where "TYPE_DOUBLE \<equiv> 6"
abbreviation TYPE_STRING :: byte where "TYPE_STRING \<equiv> 7"
abbreviation TYPE_ENUM :: byte where "TYPE_ENUM \<equiv> 8"
abbreviation TYPE_BITMASK :: byte where "TYPE_BITMASK \<equiv> 9"
abbreviation TYPE_ARRAY :: byte where "TYPE_ARRAY \<equiv> 10"
abbreviation TYPE_STRUCT :: byte where "TYPE_STRUCT \<equiv> 11"
abbreviation TYPE_BLOB :: byte where "TYPE_BLOB \<equiv> 12"
abbreviation TYPE_OPAQUE :: byte where "TYPE_OPAQUE \<equiv> 13"

subsection \<open>Failures\<close>

text \<open>
  \<open>exit(1)\<close> after an unknown tag, a failed \<open>assert\<close>, and undefined behaviour (a
  write past the end of a vector or buffer, a null pointer dereference) end the run.
  \<open>Out_of_fuel\<close> belongs to the model only: the recursion of the value decoder and the
  event loops are bounded by a fuel argument.
\<close>

datatype failure =
    Unknown_event byte
  | Unknown_call_detail byte
  | Unknown_type byte
  | Unexpected_type byte
  | Assertion_failed
  | Undefined_behaviour
  | Out_of_fuel

type_synonym 'a res = "failure + 'a \<times> Parser"

definition bind_res :: "'a res \<Rightarrow> ('a \<Rightarrow> Parser \<Rightarrow> 'b res) \<Rightarrow> 'b res" where
  "bind_res m k = (case m of Inl e \<Rightarrow> Inl e | Inr (x, p) \<Rightarrow> k x p)"

lemma bind_res_cong [fundef_cong]:
  "m = m' \<Longrightarrow> (\<And>x p. m' = Inr (x, p) \<Longrightarrow> k x p = k' x p) \<Longrightarrow> bind_res m k = bind_res m' k'"
  by (auto simp: bind_res_def split: sum.splits)


subsection \<open>Primitive readers\<close>

definition read_byte :: "Parser \<Rightarrow> byte option \<times> Parser" where
  "read_byte p = (let (c, f) = getc (file p) in (c, p\<lparr>file := f\<rparr>))"

definition skip_byte :: "Parser \<Rightarrow> Parser" where
  "skip_byte p = p\<lparr>file := file_skip 1 (file p)\<rparr>"

definition read_uint :: "Parser \<Rightarrow> u64 \<times> Parser" where
  "read_uint p = (let (v, f) = file_read_uint (file p) in (v, p\<lparr>file := f\<rparr>))"

definition skip_uint :: "Parser \<Rightarrow> Parser" where
  "skip_uint p = p\<lparr>file := file_skip_uint (file p)\<rparr>"

text \<open>
  \<open>Parser::read_string\<close> allocates \<open>len + 1\<close> bytes, reads \<open>(unsigned)len\<close> bytes and
  writes the terminator at index \<open>len\<close>; with \<open>len + 1 = 0\<close> that write is out of
  bounds. The string is returned as the bytes read.
\<close>

definition read_string :: "Parser \<Rightarrow> (byte list) res" where
  "read_string p =
     (let (len, p1) = read_uint p in
      if len + 1 = 0 then Inl Undefined_behaviour
      else if len \<noteq> 0 then
        (let (bs, f) = file_read (unat (ucast len :: u32)) (file p1)
         in Inr (bs, p1\<lparr>file := f\<rparr>))
      else Inr ([], p1))"

definition skip_string :: "Parser \<Rightarrow> Parser" where
  "skip_string p =
     (let (len, p1) = read_uint p in p1\<lparr>file := file_skip (unat len) (file p1)\<rparr>)"

definition read_sint :: "Parser \<Rightarrow> u64 res" where
  "read_sint p =
     (case read_byte p of
        (None, p1) \<Rightarrow> Inr (0, p1)
      | (Some c, p1) \<Rightarrow>
          if c = TYPE_SINT then (let (v, p2) = read_uint p1 in Inr (- v, p2))
          else if c = TYPE_UINT then Inr (read_uint p1)
          else Inl (Unexpected_type c))"

definition skip_sint :: "Parser \<Rightarrow> Parser" where
  "skip_sint p = skip_uint (skip_byte p)"

subsection \<open>The signature tables\<close>

definition resize :: "'a option list \<Rightarrow> nat \<Rightarrow> 'a option list" where
  "resize m n = take n m @ replicate (n - length m) None"

text \<open>The template \<open>lookup\<close>; \<open>index + 1\<close> is computed in \<open>size_t\<close>.\<close>

definition lookup :: "'a option list \<Rightarrow> u64 \<Rightarrow> 'a option \<times> 'a option list" where
  "lookup m index =
     (if unat index \<ge> length m then (None, resize m (unat (index + 1)))
      else (m ! unat index, m))"

text \<open>The unchecked \<open>map[id] = sig\<close>.\<close>

definition store :: "'a option list \<Rightarrow> nat \<Rightarrow> 'a \<Rightarrow> failure + 'a option list" where
  "store m i x = (if i < length m then Inr (m[i := Some x]) else Inl Undefined_behaviour)"

text \<open>\<open>strcmp(name, "glGetError") == 0\<close>: the name up to its first NUL byte.\<close>

definition glGetError_name :: "byte list" where
  "glGetError_name = [0x67, 0x6c, 0x47, 0x65, 0x74, 0x45, 0x72, 0x72, 0x6f, 0x72]"

definition is_glGetError :: "byte list \<Rightarrow> bool" where
  "is_glGetError name \<longleftrightarrow> takeWhile (\<lambda>b. b \<noteq> 0) name = glGetError_name"

text \<open>The loops over the items of a signature body.\<close>

fun read_strings :: "nat \<Rightarrow> Parser \<Rightarrow> (byte list list) res" where
  "read_strings 0 p = Inr ([], p)"
| "read_strings (Suc n) p =
     bind_res (read_string p) (\<lambda>s p1.
     bind_res (read_strings n p1) (\<lambda>ss p2. Inr (s # ss, p2)))"

fun skip_strings :: "nat \<Rightarrow> Parser \<Rightarrow> Parser" where
  "skip_strings 0 p = p"
| "skip_strings (Suc n) p = skip_strings n (skip_string p)"

fun read_enum_values :: "nat \<Rightarrow> Parser \<Rightarrow> ((byte list \<times> u64) list) res" where
  "read_enum_values 0 p = Inr ([], p)"
| "read_enum_values (Suc n) p =
     bind_res (read_string p) (\<lambda>s p1.
     bind_res (read_sint p1) (\<lambda>v p2.
     bind_res (read_enum_values n p2) (\<lambda>xs p3. Inr ((s, v) # xs, p3))))"

fun skip_enum_values :: "nat \<Rightarrow> Parser \<Rightarrow> Parser" where
  "skip_enum_values 0 p = p"
| "skip_enum_values (Suc n) p = skip_enum_values n (skip_sint (skip_string p))"

fun read_bitmask_flags :: "nat \<Rightarrow> Parser \<Rightarrow> ((byte list \<times> u64) list) res" where
  "read_bitmask_flags 0 p = Inr ([], p)"
| "read_bitmask_flags (Suc n) p =
     bind_res (read_string p) (\<lambda>s p1.
     (let (v, p2) = read_uint p1 in
      bind_res (read_bitmask_flags n p2) (\<lambda>xs p3. Inr ((s, v) # xs, p3))))"

fun skip_bitmask_flags :: "nat \<Rightarrow> Parser \<Rightarrow> Parser" where
  "skip_bitmask_flags 0 p = p"
| "skip_bitmask_flags (Suc n) p = skip_bitmask_flags n (skip_uint (skip_string p))"

text \<open>The number of rounds of \<open>for (int i = 0; i < n; ++i)\<close> for an \<open>int n\<close>.\<close>

definition int_rounds :: "u64 \<Rightarrow> nat" where
  "int_rounds n = nat (sint (ucast n :: u32))"

definition parse_function_sig :: "externals \<Rightarrow> Parser \<Rightarrow> (FunctionSigState ptr) res" where
  "parse_function_sig E p =
     (let (id, p1) = read_uint p;
          (sig, m) = lookup (functions p1) id;
          p2 = p1\<lparr>functions := m\<rparr>
      in case sig of
           None \<Rightarrow>
             bind_res (read_string p2) (\<lambda>name p3.
             (let (n, p4) = read_uint p3; num_args = (ucast n :: u32) in
              bind_res (read_strings (unat num_args) p4) (\<lambda>arg_names p5.
              (let new_sig = (next_addr p5,
                     \<lparr>fsig_id = id, fsig_name = name, fsig_num_args = num_args,
                      fsig_arg_names = arg_names, fsig_flags = lookupCallFlags E name,
                      fsig_offset = currentOffset (file p5)\<rparr>)
               in case store (functions p5) (unat id) new_sig of
                    Inl e \<Rightarrow> Inl e
                  | Inr m' \<Rightarrow>
                      Inr (new_sig,
                           p5\<lparr>functions := m', next_addr := next_addr p5 + 1,
                              glGetErrorSig :=
                                (if num_args = 0 \<and> is_glGetError name then Some new_sig
                                 else glGetErrorSig p5)\<rparr>)))))
         | Some s \<Rightarrow>
             if currentOffset (file p2) < fsig_offset (snd s) then
               (let p3 = skip_string p2;
                    (n, p4) = read_uint p3;
                    num_args = (ucast n :: u32)
                in Inr (s, skip_strings (unat num_args) p4))
             else Inr (s, p2))"

definition parse_struct_sig :: "Parser \<Rightarrow> (StructSigState ptr) res" where
  "parse_struct_sig p =
     (let (id, p1) = read_uint p;
          (sig, m) = lookup (structs p1) id;
          p2 = p1\<lparr>structs := m\<rparr>
      in case sig of
           None \<Rightarrow>
             bind_res (read_string p2) (\<lambda>name p3.
             (let (n, p4) = read_uint p3; num_members = (ucast n :: u32) in
              bind_res (read_strings (unat num_members) p4) (\<lambda>member_names p5.
              (let new_sig = (next_addr p5,
                     \<lparr>ssig_id = id, ssig_name = name, ssig_num_members = num_members,
                      ssig_member_names = member_names,
                      ssig_offset = currentOffset (file p5)\<rparr>)
               in case store (structs p5) (unat id) new_sig of
                    Inl e \<Rightarrow> Inl e
                  | Inr m' \<Rightarrow>
                      Inr (new_sig, p5\<lparr>structs := m', next_addr := next_addr p5 + 1\<rparr>)))))
         | Some s \<Rightarrow>
             if currentOffset (file p2) < ssig_offset (snd s) then
               (let p3 = skip_string p2;
                    (n, p4) = read_uint p3;
                    num_members = (ucast n :: u32)
                in Inr (s, skip_strings (unat num_members) p4))
             else Inr (s, p2))"

definition parse_enum_sig :: "Parser \<Rightarrow> (EnumSigState ptr) res" where
  "parse_enum_sig p =
     (let (id, p1) = read_uint p;
          (sig, m) = lookup (enums p1) id;
          p2 = p1\<lparr>enums := m\<rparr>
      in case sig of
           None \<Rightarrow>
             (let (n, p3) = read_uint p2; num_values = (ucast n :: u32) in
              bind_res (read_enum_values (unat num_values) p3) (\<lambda>vals p4.
              (let new_sig = (next_addr p4,
                     \<lparr>esig_id = id, esig_num_values = num_values, esig_values = vals,
                      esig_offset = currentOffset (file p4)\<rparr>)
               in case store (enums p4) (unat id) new_sig of
                    Inl e \<Rightarrow> Inl e
                  | Inr m' \<Rightarrow>
                      Inr (new_sig, p4\<lparr>enums := m', next_addr := next_addr p4 + 1\<rparr>))))
         | Some s \<Rightarrow>
             if currentOffset (file p2) < esig_offset (snd s) then
               (let (n, p3) = read_uint p2
                in Inr (s, skip_enum_values (int_rounds n) p3))
             else Inr (s, p2))"

definition parse_bitmask_sig :: "Parser \<Rightarrow> (BitmaskSigState ptr) res" where
  "parse_bitmask_sig p =
     (let (id, p1) = read_uint p;
          (sig, m) = lookup (bitmasks p1) id;
          p2 = p1\<lparr>bitmasks := m\<rparr>
      in case sig of
           None \<Rightarrow>
             (let (n, p3) = read_uint p2; num_flags = (ucast n :: u32) in
              bind_res (read_bitmask_flags (unat num_flags) p3) (\<lambda>flags p4.
              (let new_sig = (next_addr p4,
                     \<lparr>bsig_id = id, bsig_num_flags = num_flags, bsig_flags = flags,
                      bsig_offset = currentOffset (file p4)\<rparr>)
               in case store (bitmasks p4) (unat id) new_sig of
                    Inl e \<Rightarrow> Inl e
                  | Inr m' \<Rightarrow>
                      Inr (new_sig, p4\<lparr>bitmasks := m', next_addr := next_addr p4 + 1\<rparr>))))
         | Some s \<Rightarrow>
             if currentOffset (file p2) < bsig_offset (snd s) then
               (let (n, p3) = read_uint p2
                in Inr (s, skip_bitmask_flags (int_rounds n) p3))
             else Inr (s, p2))"


subsection \<open>Scanning a value\<close>

definition scan_sint :: "Parser \<Rightarrow> Parser" where
  "scan_sint p = skip_uint p"

definition scan_uint :: "Parser \<Rightarrow> Parser" where
  "scan_uint p = skip_uint p"

definition scan_float :: "Parser \<Rightarrow> Parser" where
  "scan_float p = p\<lparr>file := file_skip 4 (file p)\<rparr>"

definition scan_double :: "Parser \<Rightarrow> Parser" where
  "scan_double p = p\<lparr>file := file_skip 8 (file p)\<rparr>"

definition scan_string :: "Parser \<Rightarrow> Parser" where
  "scan_string p = skip_string p"

definition scan_bitmask :: "Parser \<Rightarrow> unit res" where
  "scan_bitmask p = bind_res (parse_bitmask_sig p) (\<lambda>sig p1. Inr ((), skip_uint p1))"

definition scan_blob :: "Parser \<Rightarrow> Parser" where
  "scan_blob p =
     (let (size, p1) = read_uint p in
      if size \<noteq> 0 then p1\<lparr>file := file_skip (unat size) (file p1)\<rparr> else p1)"

definition scan_opaque :: "Parser \<Rightarrow> Parser" where
  "scan_opaque p = skip_uint p"

text \<open>
  \<open>scan_value\<close>, \<open>scan_array\<close>, \<open>scan_struct\<close>, \<open>scan_enum\<close> and
  \<open>parse_old_enum_sig\<close> call each other. The first argument is the fuel: the number of
  nested \<open>scan_value\<close> calls still allowed. \<open>scan_values k n\<close> is the body shared by
  the two \<open>for\<close> loops: \<open>n\<close> calls of \<open>scan_value\<close>.
\<close>

fun scan_value_fuel :: "nat \<Rightarrow> Parser \<Rightarrow> unit res"
  and scan_values :: "nat \<Rightarrow> nat \<Rightarrow> Parser \<Rightarrow> unit res"
  and scan_array :: "nat \<Rightarrow> Parser \<Rightarrow> unit res"
  and scan_struct :: "nat \<Rightarrow> Parser \<Rightarrow> unit res"
  and scan_enum :: "nat \<Rightarrow> Parser \<Rightarrow> unit res"
  and parse_old_enum_sig :: "nat \<Rightarrow> Parser \<Rightarrow> (EnumSigState ptr) res"
where
  "scan_value_fuel 0 p = Inl Out_of_fuel"
| "scan_value_fuel (Suc k) p =
     (case read_byte p of
        (None, p1) \<Rightarrow> Inr ((), p1)
      | (Some c, p1) \<Rightarrow>
          if c = TYPE_NULL \<or> c = TYPE_FALSE \<or> c = TYPE_TRUE then Inr ((), p1)
          else if c = TYPE_SINT then Inr ((), scan_sint p1)
          else if c = TYPE_UINT then Inr ((), scan_uint p1)
          else if c = TYPE_FLOAT then Inr ((), scan_float p1)
          else if c = TYPE_DOUBLE then Inr ((), scan_double p1)
          else if c = TYPE_STRING then Inr ((), scan_string p1)
          else if c = TYPE_ENUM then scan_enum k p1
          else if c = TYPE_BITMASK then scan_bitmask p1
          else if c = TYPE_ARRAY then scan_array k p1
          else if c = TYPE_STRUCT then scan_struct k p1
          else if c = TYPE_BLOB then Inr ((), scan_blob p1)
          else if c = TYPE_OPAQUE then Inr ((), scan_opaque p1)
          else Inl (Unknown_type c))"
| "scan_values k 0 p = Inr ((), p)"
| "scan_values k (Suc n) p = bind_res (scan_value_fuel k p) (\<lambda>u p1. scan_values k n p1)"
| "scan_array k p = (let (len, p1) = read_uint p in scan_values k (unat len) p1)"
| "scan_struct k p =
     bind_res (parse_struct_sig p) (\<lambda>sig p1.
       scan_values k (unat (ssig_num_members (snd sig))) p1)"
| "scan_enum k p =
     (if version p \<ge> 3 then
        bind_res (parse_enum_sig p) (\<lambda>sig p1. Inr ((), skip_sint p1))
      else bind_res (parse_old_enum_sig k p) (\<lambda>sig p1. Inr ((), p1)))"
| "parse_old_enum_sig k p =
     (let (id, p1) = read_uint p;
          (sig, m) = lookup (enums p1) id;
          p2 = p1\<lparr>enums := m\<rparr>
      in case sig of
           None \<Rightarrow>
             bind_res (read_string p2) (\<lambda>name p3.
             bind_res (read_sint p3) (\<lambda>v p4.
             (let new_sig = (next_addr p4,
                    \<lparr>esig_id = id, esig_num_values = 1, esig_values = [(name, v)],
                     esig_offset = currentOffset (file p4)\<rparr>)
              in case store (enums p4) (unat id) new_sig of
                   Inl e \<Rightarrow> Inl e
                 | Inr m' \<Rightarrow>
                     Inr (new_sig, p4\<lparr>enums := m', next_addr := next_addr p4 + 1\<rparr>))))
         | Some s \<Rightarrow>
             if currentOffset (file p2) < esig_offset (snd s) then
               bind_res (scan_value_fuel k (skip_string p2)) (\<lambda>u p3. Inr (s, p3))
             else Inr (s, p2))"

declare scan_array.simps [simp del] scan_struct.simps [simp del] scan_enum.simps [simp del]
  parse_old_enum_sig.simps [simp del]

definition scan_value :: "Parser \<Rightarrow> unit res" where
  "scan_value p = scan_value_fuel (Suc (remaining (file p))) p"


subsection \<open>Parsing a value\<close>

definition parse_sint :: "Parser \<Rightarrow> val \<times> Parser" where
  "parse_sint p = (let (v, p1) = read_uint p in (SInt (- v), p1))"

definition parse_uint :: "Parser \<Rightarrow> val \<times> Parser" where
  "parse_uint p = (let (v, p1) = read_uint p in (UInt v, p1))"

definition parse_float :: "Parser \<Rightarrow> val \<times> Parser" where
  "parse_float p = (let (bs, f) = file_read 4 (file p) in (Float bs, p\<lparr>file := f\<rparr>))"

definition parse_double :: "Parser \<Rightarrow> val \<times> Parser" where
  "parse_double p = (let (bs, f) = file_read 8 (file p) in (Double bs, p\<lparr>file := f\<rparr>))"

definition parse_string :: "Parser \<Rightarrow> val res" where
  "parse_string p = bind_res (read_string p) (\<lambda>s p1. Inr (String s, p1))"

definition parse_bitmask :: "Parser \<Rightarrow> val res" where
  "parse_bitmask p =
     bind_res (parse_bitmask_sig p) (\<lambda>sig p1.
       (let (v, p2) = read_uint p1 in Inr (Bitmask sig v, p2)))"

definition parse_blob :: "Parser \<Rightarrow> val \<times> Parser" where
  "parse_blob p =
     (let (size, p1) = read_uint p in
      if size \<noteq> 0 then
        (let (bs, f) = file_read (unat (ucast size :: u32)) (file p1)
         in (Blob size bs, p1\<lparr>file := f\<rparr>))
      else (Blob size [], p1))"

definition parse_opaque :: "Parser \<Rightarrow> val \<times> Parser" where
  "parse_opaque p = (let (addr, p1) = read_uint p in (Pointer addr, p1))"

text \<open>
  \<open>parse_enum\<close> for a trace older than version 3 takes the value from the signature's
  only entry, after \<open>assert(sig->num_values == 1)\<close>.
\<close>

definition parse_enum :: "nat \<Rightarrow> Parser \<Rightarrow> val res" where
  "parse_enum k p =
     (if version p \<ge> 3 then
        bind_res (parse_enum_sig p) (\<lambda>sig p1.
        bind_res (read_sint p1) (\<lambda>v p2. Inr (Enum sig v, p2)))
      else
        bind_res (parse_old_enum_sig k p) (\<lambda>sig p1.
          if esig_num_values (snd sig) \<noteq> 1 then Inl Assertion_failed
          else case esig_values (snd sig) of
                 [] \<Rightarrow> Inl Undefined_behaviour
               | (name, v) # rest \<Rightarrow> Inr (Enum sig v, p1)))"

text \<open>
  \<open>parse_value\<close>, \<open>parse_array\<close> and \<open>parse_struct\<close>, with the same fuel as the
  scanner. A null \<open>Value *\<close> (the end of the stream at the tag) is \<open>None\<close>.
\<close>

fun parse_value_fuel :: "nat \<Rightarrow> Parser \<Rightarrow> (val option) res"
  and parse_values :: "nat \<Rightarrow> nat \<Rightarrow> Parser \<Rightarrow> (val option list) res"
  and parse_array :: "nat \<Rightarrow> Parser \<Rightarrow> (val option) res"
  and parse_struct :: "nat \<Rightarrow> Parser \<Rightarrow> (val option) res"
where
  "parse_value_fuel 0 p = Inl Out_of_fuel"
| "parse_value_fuel (Suc k) p =
     (case read_byte p of
        (None, p1) \<Rightarrow> Inr (None, p1)
      | (Some c, p1) \<Rightarrow>
          if c = TYPE_NULL then Inr (Some Null, p1)
          else if c = TYPE_FALSE then Inr (Some (Bool False), p1)
          else if c = TYPE_TRUE then Inr (Some (Bool True), p1)
          else if c = TYPE_SINT then (let (v, p2) = parse_sint p1 in Inr (Some v, p2))
          else if c = TYPE_UINT then (let (v, p2) = parse_uint p1 in Inr (Some v, p2))
          else if c = TYPE_FLOAT then (let (v, p2) = parse_float p1 in Inr (Some v, p2))
          else if c = TYPE_DOUBLE then (let (v, p2) = parse_double p1 in Inr (Some v, p2))
          else if c = TYPE_STRING then
            bind_res (parse_string p1) (\<lambda>v p2. Inr (Some v, p2))
          else if c = TYPE_ENUM then
            bind_res (parse_enum k p1) (\<lambda>v p2. Inr (Some v, p2))
          else if c = TYPE_BITMASK then
            bind_res (parse_bitmask p1) (\<lambda>v p2. Inr (Some v, p2))
          else if c = TYPE_ARRAY then parse_array k p1
          else if c = TYPE_STRUCT then parse_struct k p1
          else if c = TYPE_BLOB then (let (v, p2) = parse_blob p1 in Inr (Some v, p2))
          else if c = TYPE_OPAQUE then (let (v, p2) = parse_opaque p1 in Inr (Some v, p2))
          else Inl (Unknown_type c))"
| "parse_values k 0 p = Inr ([], p)"
| "parse_values k (Suc n) p =
     bind_res (parse_value_fuel k p) (\<lambda>v p1.
     bind_res (parse_values k n p1) (\<lambda>vs p2. Inr (v # vs, p2)))"
| "parse_array k p =
     (let (len, p1) = read_uint p in
      bind_res (parse_values k (unat len) p1) (\<lambda>vs p2. Inr (Some (Array vs), p2)))"
| "parse_struct k p =
     bind_res (parse_struct_sig p) (\<lambda>sig p1.
     bind_res (parse_values k (unat (ssig_num_members (snd sig))) p1) (\<lambda>vs p2.
       Inr (Some (Struct sig vs), p2)))"

declare parse_array.simps [simp del] parse_struct.simps [simp del]

definition parse_value :: "Parser \<Rightarrow> (val option) res" where
  "parse_value p = parse_value_fuel (Suc (remaining (file p))) p"

text \<open>
  Modelled from the spec: \<open>parse_value(Mode)\<close> is declared in trace\_parser.hpp,
  outside the sources. Spec 4.5: the mode is an opaque hint and every mode parses in
  full.
\<close>

type_synonym Mode = nat

definition parse_value_mode :: "Mode \<Rightarrow> Parser \<Rightarrow> (val option) res" where
  "parse_value_mode mode p = parse_value p"

subsection \<open>Calls\<close>

text \<open>
  Modelled from the spec: the constructor of \<open>Call\<close> (trace\_model.hpp, outside the
  sources) stores the signature, the flags and the thread id; the arguments start empty
  and grow as needed (spec 4.5), there is no return value and no call time yet.
\<close>

definition new_Call :: "FunctionSigState ptr \<Rightarrow> u32 \<Rightarrow> u32 \<Rightarrow> Call" where
  "new_Call sig flags thread_id =
     \<lparr>c_no = 0, c_thread_id = thread_id, c_sig = sig, c_flags = flags,
      c_args = [], c_ret = None, c_call_time = None\<rparr>"

text \<open>
  \<open>parse_arg\<close>: \<open>index\<close> is an \<open>unsigned\<close>, so \<open>index + 1\<close> wraps to 0 at
  \<open>UINT_MAX\<close> and the store that follows is out of bounds.
\<close>

definition parse_arg :: "Call \<Rightarrow> Mode \<Rightarrow> Parser \<Rightarrow> Call res" where
  "parse_arg call mode p =
     (let (n, p1) = read_uint p; index = (ucast n :: u32) in
      bind_res (parse_value_mode mode p1) (\<lambda>v p2.
        case v of
          None \<Rightarrow> Inr (call, p2)
        | Some x \<Rightarrow>
            (let args = (if unat index \<ge> length (c_args call)
                         then resize (c_args call) (unat (index + 1))
                         else c_args call)
             in case store args (unat index) x of
                  Inl e \<Rightarrow> Inl e
                | Inr args' \<Rightarrow> Inr (call\<lparr>c_args := args'\<rparr>, p2))))"

text \<open>
  \<open>parse_call_details\<close> changes the call it is given and returns a flag; the model
  returns both. Each round of its loop reads a byte, and the fuel counts the rounds.
\<close>

fun parse_call_details_fuel :: "nat \<Rightarrow> Call \<Rightarrow> Mode \<Rightarrow> Parser \<Rightarrow> (bool \<times> Call) res" where
  "parse_call_details_fuel 0 call mode p = Inl Out_of_fuel"
| "parse_call_details_fuel (Suc k) call mode p =
     (case read_byte p of
        (None, p1) \<Rightarrow> Inr ((False, call), p1)
      | (Some c, p1) \<Rightarrow>
          if c = CALL_END then Inr ((True, call), p1)
          else if c = CALL_ARG then
            bind_res (parse_arg call mode p1) (\<lambda>call' p2.
              parse_call_details_fuel k call' mode p2)
          else if c = CALL_RET then
            bind_res (parse_value_mode mode p1) (\<lambda>v p2.
              parse_call_details_fuel k (call\<lparr>c_ret := v\<rparr>) mode p2)
          else Inl (Unknown_call_detail c))"

definition parse_call_details :: "Call \<Rightarrow> Mode \<Rightarrow> Parser \<Rightarrow> (bool \<times> Call) res" where
  "parse_call_details call mode p =
     parse_call_details_fuel (Suc (remaining (file p))) call mode p"

definition parse_enter :: "externals \<Rightarrow> Mode \<Rightarrow> Parser \<Rightarrow> unit res" where
  "parse_enter E mode p =
     (let (thread_id, p1) =
            (if version p \<ge> 4 then (let (t, p') = read_uint p in (ucast t :: u32, p'))
             else (0, p))
      in bind_res (parse_function_sig E p1) (\<lambda>sig p2.
           (let call = (new_Call sig (fsig_flags (snd sig)) thread_id)\<lparr>c_no := next_call_no p2\<rparr>;
                p3 = p2\<lparr>next_call_no := next_call_no p2 + 1\<rparr>
            in bind_res (parse_call_details call mode p3) (\<lambda>(ok, call') p4.
                 if ok then Inr ((), p4\<lparr>calls := calls p4 @ [call']\<rparr>)
                 else Inr ((), p4)))))"

text \<open>The search of \<open>parse_leave\<close>: the first pending call with this number, erased.\<close>

fun take_call :: "u32 \<Rightarrow> Call list \<Rightarrow> (Call \<times> Call list) option" where
  "take_call n [] = None"
| "take_call n (c # cs) =
     (if c_no c = n then Some (c, cs)
      else map_option (\<lambda>(d, ds). (d, c # ds)) (take_call n cs))"

definition parse_leave :: "Mode \<Rightarrow> Parser \<Rightarrow> (Call option) res" where
  "parse_leave mode p =
     (let (call_time, p1) = parse_uint p;
          (n, p2) = read_uint p1;
          call_no = (ucast n :: u32)
      in case take_call call_no (calls p2) of
           None \<Rightarrow> Inr (None, p2)
         | Some (call, rest) \<Rightarrow>
             bind_res (parse_call_details (call\<lparr>c_call_time := Some call_time\<rparr>) mode
                         (p2\<lparr>calls := rest\<rparr>))
               (\<lambda>(ok, call') p3. Inr (if ok then Some call' else None, p3)))"

text \<open>
  \<open>adjust_call_flags\<close> takes a \<open>Call *\<close> and dereferences it at once; \<open>None\<close> is
  the null pointer.
\<close>

definition adjust_call_flags :: "externals \<Rightarrow> Parser \<Rightarrow> Call option \<Rightarrow> failure + Call" where
  "adjust_call_flags E p call =
     (case call of
        None \<Rightarrow> Inl Undefined_behaviour
      | Some c \<Rightarrow>
          if Some (fst (c_sig c)) = map_option fst (glGetErrorSig p)
             \<and> (case c_ret c of None \<Rightarrow> False | Some r \<Rightarrow> toSInt E r = 0)
          then Inr (c\<lparr>c_flags := c_flags c OR CALL_FLAG_VERBOSE E\<rparr>)
          else Inr c)"

fun parse_call_fuel :: "nat \<Rightarrow> externals \<Rightarrow> Mode \<Rightarrow> Parser \<Rightarrow> (Call option) res" where
  "parse_call_fuel 0 E mode p = Inl Out_of_fuel"
| "parse_call_fuel (Suc k) E mode p =
     (case read_byte p of
        (Some c, p1) \<Rightarrow>
          if c = EVENT_ENTER then
            bind_res (parse_enter E mode p1) (\<lambda>u p2. parse_call_fuel k E mode p2)
          else if c = EVENT_LEAVE then
            bind_res (parse_leave mode p1) (\<lambda>call p2.
              case adjust_call_flags E p2 call of
                Inl e \<Rightarrow> Inl e
              | Inr call' \<Rightarrow> Inr (Some call', p2))
          else Inl (Unknown_event c)
      | (None, p1) \<Rightarrow>
          if calls p1 \<noteq> [] then
            (let call = (hd (calls p1))\<lparr>c_flags := c_flags (hd (calls p1)) OR CALL_FLAG_INCOMPLETE E\<rparr>;
                 p2 = p1\<lparr>calls := tl (calls p1)\<rparr>
             in case adjust_call_flags E p2 (Some call) of
                  Inl e \<Rightarrow> Inl e
                | Inr call' \<Rightarrow> Inr (Some call', p2))
          else Inr (None, p1))"

definition parse_call :: "externals \<Rightarrow> Mode \<Rightarrow> Parser \<Rightarrow> (Call option) res" where
  "parse_call E mode p = parse_call_fuel (Suc (remaining (file p))) E mode p"

subsection \<open>Opening a trace\<close>

text \<open>
  \<open>Parser::Parser\<close> followed by \<open>Parser::open\<close> on a file with the given bytes;
  \<open>TRACE_VERSION\<close> is a parameter. The flag says whether the version is supported.
\<close>

definition open_trace :: "u64 \<Rightarrow> byte list \<Rightarrow> bool \<times> Parser" where
  "open_trace TRACE_VERSION bytes =
     (let p0 = \<lparr>file = \<lparr>contents = bytes, cur = 0\<rparr>, version = 0, next_call_no = 0,
                calls = [], functions = [], structs = [], enums = [], bitmasks = [],
                glGetErrorSig = None, next_addr = 0\<rparr>;
          (v, p1) = read_uint p0
      in (\<not> v > TRACE_VERSION, p1\<lparr>version := v\<rparr>))"

subsection \<open>Bookmarks\<close>

definition getBookmark :: "Parser \<Rightarrow> ParseBookmark" where
  "getBookmark p = \<lparr>bm_offset = currentOffset (file p), bm_next_call_no = next_call_no p\<rparr>"

definition setBookmark :: "ParseBookmark \<Rightarrow> Parser \<Rightarrow> Parser" where
  "setBookmark bookmark p =
     p\<lparr>file := setCurrentOffset (bm_offset bookmark) (file p),
       next_call_no := bm_next_call_no bookmark,
       calls := []\<rparr>"

section \<open>The vocabulary of the properties\<close>

subsection \<open>Frames\<close>

text \<open>
  \<open>file_adv f f'\<close>: the same bytes, and the cursor has not moved back.
  \<open>only_file p p'\<close>: \<open>p'\<close> is \<open>p\<close> with its file advanced, nothing else changed.
\<close>

definition file_adv :: "File \<Rightarrow> File \<Rightarrow> bool" where
  "file_adv f f' \<longleftrightarrow> contents f' = contents f \<and> cur f \<le> cur f'"

definition only_file :: "Parser \<Rightarrow> Parser \<Rightarrow> bool" where
  "only_file p p' \<longleftrightarrow> (\<exists>f. p' = p\<lparr>file := f\<rparr> \<and> file_adv (file p) f)"

text \<open>\<open>grows m m'\<close>: every slot of the table \<open>m\<close> that is set is the same slot of \<open>m'\<close>.\<close>

definition grows :: "'a option list \<Rightarrow> 'a option list \<Rightarrow> bool" where
  "grows m m' \<longleftrightarrow> (\<forall>i < length m. m ! i \<noteq> None \<longrightarrow> i < length m' \<and> m' ! i = m ! i)"

text \<open>
  \<open>value_inv\<close> is what the value decoder and the scanner keep: they advance the file,
  may intern struct, enum and bitmask signatures, and leave everything else alone.
  \<open>call_inv\<close> is what the call assembler keeps, which may also intern function
  signatures and change the pending calls, the call counter and \<open>glGetErrorSig\<close>.
  \<open>tables_grow\<close> is the part of it that survives a \<open>setBookmark\<close>.
\<close>

definition value_inv :: "Parser \<Rightarrow> Parser \<Rightarrow> bool" where
  "value_inv p p' \<longleftrightarrow>
     file_adv (file p) (file p') \<and> version p' = version p
     \<and> next_call_no p' = next_call_no p \<and> calls p' = calls p
     \<and> functions p' = functions p \<and> glGetErrorSig p' = glGetErrorSig p
     \<and> grows (structs p) (structs p') \<and> grows (enums p) (enums p')
     \<and> grows (bitmasks p) (bitmasks p') \<and> next_addr p \<le> next_addr p'"

definition call_inv :: "Parser \<Rightarrow> Parser \<Rightarrow> bool" where
  "call_inv p p' \<longleftrightarrow>
     file_adv (file p) (file p') \<and> version p' = version p
     \<and> grows (functions p) (functions p') \<and> grows (structs p) (structs p')
     \<and> grows (enums p) (enums p') \<and> grows (bitmasks p) (bitmasks p')
     \<and> next_addr p \<le> next_addr p'"

definition tables_grow :: "Parser \<Rightarrow> Parser \<Rightarrow> bool" where
  "tables_grow p p' \<longleftrightarrow>
     grows (functions p) (functions p') \<and> grows (structs p) (structs p')
     \<and> grows (enums p) (enums p') \<and> grows (bitmasks p) (bitmasks p')"

subsection \<open>Sessions\<close>

text \<open>The signature an id resolves to: the table slot, null outside the table.\<close>

definition resolved :: "'a option list \<Rightarrow> u64 \<Rightarrow> 'a option" where
  "resolved m i = (if unat i < length m then m ! unat i else None)"

text \<open>
  One step of a decoding session: any of the operations of the parser that can run
  between two sightings of an id, down to the primitive readers (which move the cursor
  only) and the bookkeeping of the pending calls and the call counter. \<open>close\<close> ends the
  session and is not a step.
\<close>

inductive session_step :: "externals \<Rightarrow> Parser \<Rightarrow> Parser \<Rightarrow> bool" for E :: externals where
  step_parse_call: "parse_call E mode p = Inr (r, p') \<Longrightarrow> session_step E p p'"
| step_setBookmark: "session_step E p (setBookmark b p)"
| step_parse_enter: "parse_enter E mode p = Inr (u, p') \<Longrightarrow> session_step E p p'"
| step_parse_leave: "parse_leave mode p = Inr (r, p') \<Longrightarrow> session_step E p p'"
| step_parse_value: "parse_value p = Inr (v, p') \<Longrightarrow> session_step E p p'"
| step_scan_value: "scan_value p = Inr (u, p') \<Longrightarrow> session_step E p p'"
| step_function_sig: "parse_function_sig E p = Inr (fs, p') \<Longrightarrow> session_step E p p'"
| step_struct_sig: "parse_struct_sig p = Inr (ss, p') \<Longrightarrow> session_step E p p'"
| step_enum_sig: "parse_enum_sig p = Inr (es, p') \<Longrightarrow> session_step E p p'"
| step_old_enum_sig: "parse_old_enum_sig k p = Inr (es, p') \<Longrightarrow> session_step E p p'"
| step_bitmask_sig: "parse_bitmask_sig p = Inr (bs, p') \<Longrightarrow> session_step E p p'"
| step_read: "only_file p p' \<Longrightarrow> session_step E p p'"
| step_pending: "session_step E p (p\<lparr>calls := cs, next_call_no := n\<rparr>)"

definition session :: "externals \<Rightarrow> Parser \<Rightarrow> Parser \<Rightarrow> bool" where
  "session E p p' \<longleftrightarrow> (session_step E)\<^sup>*\<^sup>* p p'"

subsection \<open>Fuel\<close>

text \<open>
  \<open>no_oof\<close>: the run ended as the source's run ends, with a result or with one of its
  own failures. The predicates indexed by the fuel are the statements proved by
  induction on it.
\<close>

definition no_oof :: "failure + 'a \<Rightarrow> bool" where
  "no_oof m \<longleftrightarrow> m \<noteq> Inl Out_of_fuel"

definition scan_total :: "nat \<Rightarrow> bool" where
  "scan_total k \<longleftrightarrow> (\<forall>p. remaining (file p) < k \<longrightarrow> no_oof (scan_value_fuel k p))"

definition parse_total :: "nat \<Rightarrow> bool" where
  "parse_total k \<longleftrightarrow> (\<forall>p. remaining (file p) < k \<longrightarrow> no_oof (parse_value_fuel k p))"

text \<open>
  \<open>scan_mono k\<close>, \<open>parse_mono k\<close>: a run that ended with fuel \<open>k\<close> ends the same way
  with more fuel.
\<close>

definition scan_mono :: "nat \<Rightarrow> bool" where
  "scan_mono k \<longleftrightarrow> (\<forall>p. no_oof (scan_value_fuel k p) \<longrightarrow>
                      scan_value_fuel (Suc k) p = scan_value_fuel k p)"

definition parse_mono :: "nat \<Rightarrow> bool" where
  "parse_mono k \<longleftrightarrow> (\<forall>p. no_oof (parse_value_fuel k p) \<longrightarrow>
                       parse_value_fuel (Suc k) p = parse_value_fuel k p)"

definition scan_ok :: "nat \<Rightarrow> bool" where
  "scan_ok k \<longleftrightarrow> (\<forall>p p' x. scan_value_fuel k p = Inr (x, p') \<longrightarrow> value_inv p p')"

definition parse_ok :: "nat \<Rightarrow> bool" where
  "parse_ok k \<longleftrightarrow> (\<forall>p p' x. parse_value_fuel k p = Inr (x, p') \<longrightarrow> value_inv p p')"

text \<open>
  \<open>ends_inside p q\<close>: the stream of \<open>p\<close> is no longer than \<open>2 ^ 32\<close> bytes and the
  cursor of \<open>q\<close> stands before its end, so that no \<open>skip\<close> on the way to \<open>q\<close> was cut
  short by the end of the stream. \<open>agree k\<close>: with fuel \<open>k\<close>, a scan that ends inside
  ends where the parse ends.
\<close>

definition ends_inside :: "Parser \<Rightarrow> Parser \<Rightarrow> bool" where
  "ends_inside p q \<longleftrightarrow>
     length (contents (file p)) \<le> 2 ^ 32 \<and> cur (file q) < length (contents (file p))"

definition agree :: "nat \<Rightarrow> bool" where
  "agree k \<longleftrightarrow>
     (\<forall>p v q' u q. parse_value_fuel k p = Inr (v, q') \<longrightarrow> scan_value_fuel k p = Inr (u, q) \<longrightarrow>
        ends_inside p q \<longrightarrow> q' = q)"

subsection \<open>What the encoder writes\<close>







definition advance :: "nat \<Rightarrow> Parser \<Rightarrow> Parser" where
  "advance n p = p\<lparr>file := (file p)\<lparr>cur := cur (file p) + n\<rparr>\<rparr>"

subsection \<open>Traces and sessions for the concrete runs\<close>

text \<open>
  Externals for the runs: no function has flags, \<open>toSInt\<close> returns the integer of an
  integer value, and the two flag bits are bits 6 and 7.
\<close>

definition example_externals :: externals where
  "example_externals =
     \<lparr>lookupCallFlags = (\<lambda>name. 0),
      toSInt = (\<lambda>v. case v of SInt x \<Rightarrow> x | UInt x \<Rightarrow> x | _ \<Rightarrow> 1),
      CALL_FLAG_INCOMPLETE = 0x40, CALL_FLAG_VERBOSE = 0x80\<rparr>"

text \<open>
  A parser in the middle of a session, with one signature of each kind interned under
  id 0, on the given bytes at the given offset.
\<close>

definition example_function_sig :: "FunctionSigState ptr" where
  "example_function_sig =
     (0, \<lparr>fsig_id = 0, fsig_name = [0x66], fsig_num_args = 0, fsig_arg_names = [],
          fsig_flags = 0, fsig_offset = 5\<rparr>)"

definition example_struct_sig :: "StructSigState ptr" where
  "example_struct_sig =
     (1, \<lparr>ssig_id = 0, ssig_name = [0x73], ssig_num_members = 0, ssig_member_names = [],
          ssig_offset = 9\<rparr>)"

definition example_enum_sig :: "EnumSigState ptr" where
  "example_enum_sig =
     (2, \<lparr>esig_id = 0, esig_num_values = 0, esig_values = [], esig_offset = 12\<rparr>)"

definition example_bitmask_sig :: "BitmaskSigState ptr" where
  "example_bitmask_sig =
     (3, \<lparr>bsig_id = 0, bsig_num_flags = 0, bsig_flags = [], bsig_offset = 15\<rparr>)"

definition example_session :: "byte list \<Rightarrow> nat \<Rightarrow> Parser" where
  "example_session bytes n =
     \<lparr>file = \<lparr>contents = bytes, cur = n\<rparr>, version = 4, next_call_no = 1,
      calls = [], functions = [Some example_function_sig],
      structs = [Some example_struct_sig], enums = [Some example_enum_sig],
      bitmasks = [Some example_bitmask_sig], glGetErrorSig = None, next_addr = 4\<rparr>"


definition returned_nos :: "(Call option list) res \<Rightarrow> failure + u32 option list" where
  "returned_nos r = (case r of Inl e \<Rightarrow> Inl e | Inr (cs, p) \<Rightarrow> Inr (map (map_option c_no) cs))"


text \<open>
  A trace of version 4 that holds one blob value: the tag, the varint of \<open>2 ^ 32\<close> and
  the payload.
\<close>

definition blob_4GiB_trace :: "byte list \<Rightarrow> byte list" where
  "blob_4GiB_trace payload = 4 # 12 # 0x80 # 0x80 # 0x80 # 0x80 # 0x10 # payload"



section \<open>Proofs\<close>

subsection \<open>Bits of a varint byte\<close>

lemma mask7_numeral: "(127 :: 'a::len word) = mask 7"
  by (simp add: mask_eq_exp_minus_1)

lemma bit_128_byte: "bit (128 :: byte) n \<longleftrightarrow> n = 7"
proof -
  have "(128 :: byte) = push_bit 7 1" by simp
  then have "bit (128 :: byte) n \<longleftrightarrow> bit (push_bit 7 1 :: byte) n" by (simp only:)
  also have "\<dots> \<longleftrightarrow> n = 7" by (auto simp only: bit_simps) auto
  finally show ?thesis .
qed

lemma bit_128_int: "bit (128 :: int) n \<longleftrightarrow> n = 7"
proof -
  have "(128 :: int) = push_bit 7 1" by simp
  then have "bit (128 :: int) n \<longleftrightarrow> bit (push_bit 7 1 :: int) n" by (simp only:)
  also have "\<dots> \<longleftrightarrow> n = 7" by (auto simp only: bit_simps) auto
  finally show ?thesis .
qed

lemma low7_split: "(u AND 0x7f) OR push_bit 7 (drop_bit 7 u) = (u :: u64)"
  unfolding mask7_numeral
  apply (rule bit_word_eqI)
  apply (auto simp: bit_simps)
  apply (metis add_diff_inverse_nat)
  done

lemma small_low7: "(u::u64) < 0x80 \<Longrightarrow> u AND mask 7 = u"
  by (rule less_mask_eq) simp

lemma byte_low_small:
  assumes "u < 0x80"
  shows "(ucast ((ucast (u::u64) :: byte) AND 0x7f) :: u64) = u"
proof -
  have "(ucast ((ucast (u AND mask 7) :: byte) AND mask 7) :: u64) = u AND mask 7"
    by (rule bit_word_eqI) (auto simp: bit_simps)
  then show ?thesis using small_low7[OF assms] by (simp add: mask7_numeral)
qed

lemma byte_low:
  "(ucast ((ucast ((u::u64) AND 0x7f) OR 0x80 :: byte) AND 0x7f) :: u64) = u AND 0x7f"
  unfolding mask7_numeral
  by (rule bit_word_eqI) (auto simp: bit_simps bit_128_byte bit_128_int)

lemma byte_hi: "(ucast ((u::u64) AND 0x7f) OR 0x80 :: byte) AND 0x80 \<noteq> 0"
  by simp

lemma byte_hi0:
  assumes "u < 0x80"
  shows "(ucast (u::u64) :: byte) AND 0x80 = 0"
proof -
  have "(ucast (u AND mask 7) :: byte) AND 128 = 0"
    by (rule bit_word_eqI) (auto simp: bit_simps bit_128_byte bit_128_int)
  then show ?thesis using small_low7[OF assms] by simp
qed

subsection \<open>Reading what the encoder wrote\<close>

lemma getc_drop:
  assumes a: "drop (cur f) (contents f) = c # rest"
  shows "getc f = (Some c, f\<lparr>cur := cur f + 1\<rparr>)"
    and "drop (cur f + 1) (contents f) = rest"
proof -
  have lt: "cur f < length (contents f)"
    using a by (metis drop_eq_Nil list.distinct(1) not_le)
  have "contents f ! cur f = c"
    using a lt by (metis Cons_nth_drop_Suc list.inject)
  then show "getc f = (Some c, f\<lparr>cur := cur f + 1\<rparr>)"
    using lt by (simp add: getc_def)
  show "drop (cur f + 1) (contents f) = rest"
    using a lt by (metis Cons_nth_drop_Suc list.inject Suc_eq_plus1)
qed

lemma read_uint_loop_enc:
  "drop (cur f) (contents f) = enc_uint u @ rest \<Longrightarrow>
   unat shift + 7 * length (enc_uint u) < 2 ^ 32 \<Longrightarrow>
   read_uint_loop f v shift =
     (v OR push_bit (unat shift) u, f\<lparr>cur := cur f + length (enc_uint u)\<rparr>)"
proof (induction u arbitrary: f v shift rule: enc_uint.induct)
  case (1 u)
  show ?case
  proof (cases "u < 0x80")
    case True
    then have e: "enc_uint u = [ucast u]"
      by (subst enc_uint.simps) simp
    from "1.prems"(1) e have d: "drop (cur f) (contents f) = ucast u # rest" by simp
    show ?thesis
      by (subst read_uint_loop.simps)
         (simp add: getc_drop(1)[OF d] e byte_low_small[OF True] byte_hi0[OF True] Let_def)
  next
    case False
    let ?c = "ucast (u AND 0x7f) OR 0x80 :: byte"
    from False have e: "enc_uint u = ?c # enc_uint (drop_bit 7 u)"
      by (subst enc_uint.simps) simp
    from "1.prems"(1) e have d: "drop (cur f) (contents f) = ?c # (enc_uint (drop_bit 7 u) @ rest)"
      by simp
    let ?f = "f\<lparr>cur := cur f + 1\<rparr>"
    have d': "drop (cur ?f) (contents ?f) = enc_uint (drop_bit 7 u) @ rest"
      using getc_drop(2)[OF d] by simp
    from "1.prems"(2) e have b: "unat shift + 7 + 7 * length (enc_uint (drop_bit 7 u)) < 2 ^ 32"
      by simp
    then have us: "unat (shift + 7) = unat shift + 7"
      by (simp add: unat_word_ariths)
    have b': "unat (shift + 7) + 7 * length (enc_uint (drop_bit 7 u)) < 2 ^ 32"
      using b us by simp
    have ih: "read_uint_loop ?f (v OR push_bit (unat shift) (u AND 0x7f)) (shift + 7) =
        ((v OR push_bit (unat shift) (u AND 0x7f)) OR push_bit (unat (shift + 7)) (drop_bit 7 u),
         ?f\<lparr>cur := cur ?f + length (enc_uint (drop_bit 7 u))\<rparr>)"
      by (rule "1.IH"[OF False d' b'])
    have "push_bit (unat shift) (u AND 0x7f) OR push_bit (unat shift + 7) (drop_bit 7 u)
          = push_bit (unat shift) ((u AND 0x7f) OR push_bit 7 (drop_bit 7 u))"
      by (simp add: push_bit_or push_bit_push_bit add.commute flip: push_bit_add)
    then have w: "(v OR push_bit (unat shift) (u AND 0x7f)) OR push_bit (unat shift + 7) (drop_bit 7 u)
          = v OR push_bit (unat shift) u"
      by (simp only: low7_split or.assoc)
    show ?thesis
      apply (subst read_uint_loop.simps)
      apply (simp only: getc_drop(1)[OF d] byte_low byte_hi Let_def split_conv option.case if_True simp_thms)
      apply (simp only: ih us w e)
      apply simp
      done
  qed
qed

lemma length_enc_uint_bound:
  "unat u < 2 ^ (7 * n) \<Longrightarrow> 0 < n \<Longrightarrow> length (enc_uint u) \<le> n"
proof (induction u arbitrary: n rule: enc_uint.induct)
  case (1 u)
  show ?case
  proof (cases "u < 0x80")
    case True
    then show ?thesis using "1.prems" by (subst enc_uint.simps) simp
  next
    case False
    then have e: "enc_uint u = (ucast (u AND 0x7f) OR 0x80) # enc_uint (drop_bit 7 u)"
      by (subst enc_uint.simps) simp
    from False have ge: "128 \<le> unat u"
      by (simp add: word_less_nat_alt not_less)
    obtain m where n: "n = Suc m"
      using "1.prems"(2) by (cases n) auto
    have "m \<noteq> 0"
      using ge "1.prems"(1) n by (cases m) auto
    then have m: "0 < m" by simp
    have "unat u < 128 * 2 ^ (7 * m)"
      using "1.prems"(1) n by (simp add: power_add)
    then have "unat u div 128 < 2 ^ (7 * m)"
      by (simp add: less_mult_imp_div_less mult.commute)
    then have "unat (drop_bit 7 u) < 2 ^ (7 * m)"
      by (simp add: drop_bit_eq_div unat_div)
    from "1.IH"[OF False this m] show ?thesis
      using e n by simp
  qed
qed

lemma length_enc_uint_le: "length (enc_uint u) \<le> 10"
proof -
  have "unat u < 2 ^ 64" using unsigned_less[of u] by simp
  then have "unat u < 2 ^ (7 * 10)" by simp
  then show ?thesis by (rule length_enc_uint_bound) simp
qed

lemma length_enc_uint_pos: "0 < length (enc_uint u)"
  by (subst enc_uint.simps) simp

lemma file_read_uint_enc:
  assumes "drop (cur f) (contents f) = enc_uint u @ rest"
  shows "file_read_uint f = (u, f\<lparr>cur := cur f + length (enc_uint u)\<rparr>)"
proof -
  have b: "unat (0 :: u32) + 7 * length (enc_uint u) < 2 ^ 32"
    using length_enc_uint_le[of u] by simp
  show ?thesis
    unfolding file_read_uint_def
    by (simp add: read_uint_loop_enc[OF assms b])
qed

lemma read_uint_enc:
  assumes "drop (cur (file p)) (contents (file p)) = enc_uint u @ rest"
  shows "read_uint p = (u, p\<lparr>file := (file p)\<lparr>cur := cur (file p) + length (enc_uint u)\<rparr>\<rparr>)"
  by (simp add: read_uint_def file_read_uint_enc[OF assms])

text \<open>
  C4. Varint round trip: wherever the encoding of an unsigned 64-bit integer \<open>u\<close> stands
  in the stream, \<open>read_uint\<close> started at its first byte returns \<open>u\<close> and leaves the
  cursor just behind its last byte.
\<close>

theorem read_uint_roundtrip:
  "read_uint (p\<lparr>file := \<lparr>contents = before @ enc_uint u @ rest, cur = length before\<rparr>\<rparr>)
   = (u, p\<lparr>file := \<lparr>contents = before @ enc_uint u @ rest,
                      cur = length before + length (enc_uint u)\<rparr>\<rparr>)"
  by (subst read_uint_enc[where u = u and rest = rest]) simp_all

subsection \<open>What an operation leaves alone\<close>

lemma file_adv_refl [simp]: "file_adv f f"
  by (simp add: file_adv_def)

lemma file_adv_trans: "file_adv f g \<Longrightarrow> file_adv g h \<Longrightarrow> file_adv f h"
  by (auto simp: file_adv_def)

lemma only_file_refl [simp]: "only_file p p"
  unfolding only_file_def by (rule exI[of _ "file p"]) simp

lemma only_file_trans:
  assumes "only_file p q" and "only_file q r"
  shows "only_file p r"
proof -
  from assms(1) obtain f where f: "q = p\<lparr>file := f\<rparr>" "file_adv (file p) f"
    unfolding only_file_def by blast
  from assms(2) obtain g where g: "r = q\<lparr>file := g\<rparr>" "file_adv (file q) g"
    unfolding only_file_def by blast
  from f g have "r = p\<lparr>file := g\<rparr>" by simp
  moreover from f g have "file_adv (file p) g" by (auto intro: file_adv_trans)
  ultimately show ?thesis unfolding only_file_def by blast
qed

lemma only_file_file: "only_file p p' \<Longrightarrow> file_adv (file p) (file p')"
  unfolding only_file_def by auto

lemma only_file_update: "file_adv (file p) f \<Longrightarrow> only_file p (p\<lparr>file := f\<rparr>)"
  unfolding only_file_def by auto

lemma getc_adv: "getc f = (c, f') \<Longrightarrow> file_adv f f'"
  by (auto simp: getc_def file_adv_def split: if_splits)

lemma getc_Some_remaining: "getc f = (Some c, f') \<Longrightarrow> remaining f' < remaining f"
  by (auto simp: getc_def remaining_def split: if_splits)

lemma file_adv_remaining: "file_adv f f' \<Longrightarrow> remaining f' \<le> remaining f"
  by (auto simp: file_adv_def remaining_def)

lemma file_skip_adv: "file_adv f (file_skip n f)"
  by (simp add: file_skip_def file_adv_def)

lemma file_read_adv: "file_read n f = (bs, f') \<Longrightarrow> file_adv f f'"
  by (auto simp: file_read_def file_adv_def)

lemma read_uint_loop_adv: "read_uint_loop f v s = (u, f') \<Longrightarrow> file_adv f f'"
proof (induction f v s rule: read_uint_loop.induct)
  case (1 f v shift)
  show ?case
  proof (cases "getc f")
    case (Pair c g)
    note g = getc_adv[OF Pair]
    show ?thesis
    proof (cases c)
      case None
      with "1.prems" Pair g show ?thesis
        by (subst (asm) read_uint_loop.simps) simp
    next
      case (Some b)
      show ?thesis
      proof (cases "b AND 0x80 \<noteq> 0")
        case True
        from "1.prems" Pair Some True
        have "read_uint_loop g (v OR push_bit (unat shift) (ucast (b AND 0x7f))) (shift + 7) = (u, f')"
          by (subst (asm) read_uint_loop.simps) (simp add: Let_def)
        from "1.IH"[OF Pair[symmetric] Some refl refl True this] g show ?thesis
          by (rule file_adv_trans[rotated])
      next
        case False
        with "1.prems" Pair Some g show ?thesis
          by (subst (asm) read_uint_loop.simps) (simp add: Let_def)
      qed
    qed
  qed
qed

lemma file_skip_uint_adv: "file_adv f (file_skip_uint f)"
proof (induction f rule: file_skip_uint.induct)
  case (1 f)
  show ?case
  proof (cases "getc f")
    case (Pair c g)
    note g = getc_adv[OF Pair]
    show ?thesis
    proof (cases c)
      case None
      with Pair g show ?thesis by (subst file_skip_uint.simps) simp
    next
      case (Some b)
      show ?thesis
      proof (cases "b AND 0x80 \<noteq> 0")
        case True
        have "file_skip_uint f = file_skip_uint g"
          using Pair Some True by (subst file_skip_uint.simps) simp
        with "1.IH"[OF Pair[symmetric] Some True] g show ?thesis
          by (auto intro: file_adv_trans)
      next
        case False
        with Pair Some g show ?thesis by (subst file_skip_uint.simps) simp
      qed
    qed
  qed
qed

text \<open>\<open>skip_uint\<close> moves the cursor exactly as \<open>read_uint\<close> does.\<close>

lemma file_skip_uint_read_uint_loop: "file_skip_uint f = snd (read_uint_loop f v s)"
proof (induction f v s rule: read_uint_loop.induct)
  case (1 f v shift)
  show ?case
  proof (cases "getc f")
    case (Pair c g)
    show ?thesis
    proof (cases c)
      case None
      with Pair show ?thesis
        by (subst file_skip_uint.simps, subst read_uint_loop.simps) simp
    next
      case (Some b)
      show ?thesis
      proof (cases "b AND 0x80 \<noteq> 0")
        case True
        from "1.IH"[OF Pair[symmetric] Some refl refl True] Pair Some True show ?thesis
          by (subst file_skip_uint.simps, subst read_uint_loop.simps) (simp add: Let_def)
      next
        case False
        with Pair Some show ?thesis
          by (subst file_skip_uint.simps, subst read_uint_loop.simps) (simp add: Let_def)
      qed
    qed
  qed
qed

lemma skip_uint_read_uint: "skip_uint p = snd (read_uint p)"
  by (simp add: skip_uint_def read_uint_def file_read_uint_def
      file_skip_uint_read_uint_loop[of _ 0 0] split: prod.splits)

lemma read_byte_only_file: "read_byte p = (c, p') \<Longrightarrow> only_file p p'"
  by (auto simp: read_byte_def split: prod.splits intro!: only_file_update getc_adv)

lemma read_byte_Some_remaining:
  "read_byte p = (Some c, p') \<Longrightarrow> remaining (file p') < remaining (file p)"
  by (auto simp: read_byte_def split: prod.splits dest: getc_Some_remaining)

lemma skip_byte_only_file: "only_file p (skip_byte p)"
  by (simp add: skip_byte_def only_file_update file_skip_adv)

lemma read_uint_only_file: "read_uint p = (u, p') \<Longrightarrow> only_file p p'"
  by (auto simp: read_uint_def file_read_uint_def split: prod.splits
      intro!: only_file_update read_uint_loop_adv)

lemma skip_uint_only_file: "only_file p (skip_uint p)"
  by (simp add: skip_uint_def only_file_update file_skip_uint_adv)

lemma read_string_only_file: "read_string p = Inr (s, p') \<Longrightarrow> only_file p p'"
  by (auto simp: read_string_def Let_def split: prod.splits if_splits
      dest!: read_uint_only_file file_read_adv
      intro: only_file_trans only_file_update only_file_file file_adv_trans)

lemma skip_string_only_file: "only_file p (skip_string p)"
  by (auto simp: skip_string_def split: prod.splits
      dest!: read_uint_only_file
      intro: only_file_trans only_file_update file_skip_adv)

lemma read_sint_only_file: "read_sint p = Inr (v, p') \<Longrightarrow> only_file p p'"
  by (auto simp: read_sint_def split: prod.splits option.splits if_splits
      dest!: read_uint_only_file read_byte_only_file
      intro: only_file_trans)

lemma skip_sint_only_file: "only_file p (skip_sint p)"
  unfolding skip_sint_def
  by (rule only_file_trans[OF skip_byte_only_file skip_uint_only_file])

lemma bind_resE:
  assumes "bind_res m k = Inr (y, q)"
  obtains x p1 where "m = Inr (x, p1)" and "k x p1 = Inr (y, q)"
  using assms by (auto simp: bind_res_def split: sum.splits)

lemma bind_res_Inr [simp]: "bind_res (Inr (x, p)) k = k x p"
  by (simp add: bind_res_def)

lemma bind_res_Inl [simp]: "bind_res (Inl e) k = Inl e"
  by (simp add: bind_res_def)

lemma read_strings_only_file: "read_strings n p = Inr (ss, p') \<Longrightarrow> only_file p p'"
proof (induction n arbitrary: p ss)
  case 0
  then show ?case by simp
next
  case (Suc n)
  from Suc.prems obtain s p1 where a: "read_string p = Inr (s, p1)"
    and b: "bind_res (read_strings n p1) (\<lambda>ss p2. Inr (s # ss, p2)) = Inr (ss, p')"
    by (auto elim!: bind_resE)
  from b obtain ss' where "read_strings n p1 = Inr (ss', p')"
    by (auto elim!: bind_resE)
  from Suc.IH[OF this] read_string_only_file[OF a] show ?case
    by (blast intro: only_file_trans)
qed

lemma skip_strings_only_file: "only_file p (skip_strings n p)"
  by (induction n arbitrary: p) (auto intro: only_file_trans skip_string_only_file)

lemma read_enum_values_only_file: "read_enum_values n p = Inr (xs, p') \<Longrightarrow> only_file p p'"
proof (induction n arbitrary: p xs)
  case 0
  then show ?case by simp
next
  case (Suc n)
  from Suc.prems obtain s p1 v p2 ys where a: "read_string p = Inr (s, p1)"
    and b: "read_sint p1 = Inr (v, p2)"
    and c: "read_enum_values n p2 = Inr (ys, p')"
    by (auto elim!: bind_resE)
  from Suc.IH[OF c] read_string_only_file[OF a] read_sint_only_file[OF b] show ?case
    by (blast intro: only_file_trans)
qed

lemma skip_enum_values_only_file: "only_file p (skip_enum_values n p)"
proof (induction n arbitrary: p)
  case 0
  show ?case by simp
next
  case (Suc n)
  have "only_file p (skip_sint (skip_string p))"
    by (rule only_file_trans[OF skip_string_only_file skip_sint_only_file])
  from only_file_trans[OF this Suc.IH] show ?case by simp
qed

lemma read_bitmask_flags_only_file: "read_bitmask_flags n p = Inr (xs, p') \<Longrightarrow> only_file p p'"
proof (induction n arbitrary: p xs)
  case 0
  then show ?case by simp
next
  case (Suc n)
  from Suc.prems obtain s p1 v p2 ys where a: "read_string p = Inr (s, p1)"
    and b: "read_uint p1 = (v, p2)"
    and c: "read_bitmask_flags n p2 = Inr (ys, p')"
    by (auto elim!: bind_resE split: prod.splits)
  from Suc.IH[OF c] read_string_only_file[OF a] read_uint_only_file[OF b] show ?case
    by (blast intro: only_file_trans)
qed

lemma skip_bitmask_flags_only_file: "only_file p (skip_bitmask_flags n p)"
proof (induction n arbitrary: p)
  case 0
  show ?case by simp
next
  case (Suc n)
  have "only_file p (skip_uint (skip_string p))"
    by (rule only_file_trans[OF skip_string_only_file skip_uint_only_file])
  from only_file_trans[OF this Suc.IH] show ?case by simp
qed

subsection \<open>Tables only grow\<close>

lemma grows_refl [simp]: "grows m m"
  by (simp add: grows_def)

lemma grows_trans: "grows a b \<Longrightarrow> grows b c \<Longrightarrow> grows a c"
  by (auto simp: grows_def)

lemma length_resize [simp]: "length (resize m n) = n"
  by (simp add: resize_def)

lemma lookup_Some:
  "lookup m i = (Some s, m1) \<Longrightarrow> m1 = m \<and> unat i < length m \<and> m ! unat i = Some s"
  by (auto simp: lookup_def split: if_splits)

lemma lookup_None_store_grows:
  assumes "lookup m i = (None, m1)" and "store m1 (unat i) x = Inr m2"
  shows "grows m m2 \<and> unat i < length m2 \<and> m2 ! unat i = Some x"
proof (cases "unat i \<ge> length m")
  case True
  with assms(1) have m1: "m1 = resize m (unat (i + 1))" by (simp add: lookup_def)
  from assms(2) have lt: "unat i < length m1" and m2: "m2 = m1[unat i := Some x]"
    by (auto simp: store_def split: if_splits)
  from lt m1 True have "length m \<le> unat (i + 1)" by simp
  then have "m1 = m @ replicate (unat (i + 1) - length m) None"
    using m1 by (simp add: resize_def)
  with True lt m2 show ?thesis
    by (auto simp: grows_def nth_append)
next
  case False
  with assms(1) have m1: "m1 = m" and n: "m ! unat i = None" by (auto simp: lookup_def)
  from assms(2) m1 have m2: "m2 = m[unat i := Some x]" and lt: "unat i < length m"
    by (auto simp: store_def split: if_splits)
  with n show ?thesis by (auto simp: grows_def nth_list_update)
qed

lemma only_file_structs: "only_file p p' \<Longrightarrow> structs p' = structs p \<and> next_addr p' = next_addr p"
  by (auto simp: only_file_def)

lemma parse_struct_sig_cases:
  assumes "parse_struct_sig p = Inr (s, p')"
  obtains (first) i p1 m p5 m' where
      "read_uint p = (i, p1)" "lookup (structs p1) i = (None, m)"
      "only_file (p1\<lparr>structs := m\<rparr>) p5" "store m (unat i) s = Inr m'"
      "p' = p5\<lparr>structs := m', next_addr := next_addr p5 + 1\<rparr>"
      "fst s = next_addr p5"
    | (repeat) i p1 where
      "read_uint p = (i, p1)" "lookup (structs p1) i = (Some s, structs p1)"
      "only_file p1 p'"
proof -
  obtain i p1 where r: "read_uint p = (i, p1)" by (cases "read_uint p")
  obtain sg m where l: "lookup (structs p1) i = (sg, m)" by (cases "lookup (structs p1) i")
  show ?thesis
  proof (cases sg)
    case None
    let ?p2 = "p1\<lparr>structs := m\<rparr>"
    from assms r l None obtain name p3 where a: "read_string ?p2 = Inr (name, p3)"
      and b: "(let (n, p4) = read_uint p3; num_members = (ucast n :: u32) in
              bind_res (read_strings (unat num_members) p4) (\<lambda>member_names p5.
              (let new_sig = (next_addr p5,
                     \<lparr>ssig_id = i, ssig_name = name, ssig_num_members = num_members,
                      ssig_member_names = member_names,
                      ssig_offset = currentOffset (file p5)\<rparr>)
               in case store (structs p5) (unat i) new_sig of
                    Inl e \<Rightarrow> Inl e
                  | Inr m' \<Rightarrow>
                      Inr (new_sig, p5\<lparr>structs := m', next_addr := next_addr p5 + 1\<rparr>)))) = Inr (s, p')"
      by (auto simp: parse_struct_sig_def elim!: bind_resE)
    obtain n p4 where c: "read_uint p3 = (n, p4)" by (cases "read_uint p3")
    from b c obtain names p5 where d: "read_strings (unat (ucast n :: u32)) p4 = Inr (names, p5)"
      and e: "(let new_sig = (next_addr p5,
                     \<lparr>ssig_id = i, ssig_name = name, ssig_num_members = ucast n,
                      ssig_member_names = names,
                      ssig_offset = currentOffset (file p5)\<rparr>)
               in case store (structs p5) (unat i) new_sig of
                    Inl e \<Rightarrow> Inl e
                  | Inr m' \<Rightarrow>
                      Inr (new_sig, p5\<lparr>structs := m', next_addr := next_addr p5 + 1\<rparr>)) = Inr (s, p')"
      by (auto simp: Let_def elim!: bind_resE)
    have of: "only_file ?p2 p5"
      using read_string_only_file[OF a] read_uint_only_file[OF c] read_strings_only_file[OF d]
      by (blast intro: only_file_trans)
    then have st: "structs p5 = m" using only_file_structs[OF of] by simp
    from e st obtain m' where "store m (unat i) s = Inr m'"
      "p' = p5\<lparr>structs := m', next_addr := next_addr p5 + 1\<rparr>" "fst s = next_addr p5"
      by (auto simp: Let_def split: sum.splits)
    with r l None of show ?thesis by (auto intro: first)
  next
    case (Some s')
    from lookup_Some[OF l[unfolded Some]] have m: "m = structs p1" by simp
    have of: "only_file p1 (skip_strings k (snd (read_uint (skip_string p1))))" for k
      using skip_string_only_file[of p1] read_uint_only_file[of "skip_string p1"]
        skip_strings_only_file
      by (metis only_file_trans prod.collapse)
    from assms r l Some m have "s = s' \<and> only_file p1 p'"
      using of by (auto simp: parse_struct_sig_def Let_def split: if_splits prod.splits)
    with r l Some m show ?thesis by (auto intro: repeat)
  qed
qed

lemma parse_function_sig_cases:
  assumes "parse_function_sig E p = Inr (s, p')"
  obtains (first) i p1 m p5 m' g where
      "read_uint p = (i, p1)" "lookup (functions p1) i = (None, m)"
      "only_file (p1\<lparr>functions := m\<rparr>) p5" "store m (unat i) s = Inr m'"
      "p' = p5\<lparr>functions := m', next_addr := next_addr p5 + 1, glGetErrorSig := g\<rparr>"
      "fst s = next_addr p5"
    | (repeat) i p1 where
      "read_uint p = (i, p1)" "lookup (functions p1) i = (Some s, functions p1)"
      "only_file p1 p'"
proof -
  obtain i p1 where r: "read_uint p = (i, p1)" by (cases "read_uint p")
  obtain sg m where l: "lookup (functions p1) i = (sg, m)" by (cases "lookup (functions p1) i")
  show ?thesis
  proof (cases sg)
    case None
    let ?p2 = "p1\<lparr>functions := m\<rparr>"
    from assms r l None obtain name p3 where a: "read_string ?p2 = Inr (name, p3)"
      and b: "(let (n, p4) = read_uint p3; num_args = (ucast n :: u32) in
              bind_res (read_strings (unat num_args) p4) (\<lambda>arg_names p5.
              (let new_sig = (next_addr p5,
                     \<lparr>fsig_id = i, fsig_name = name, fsig_num_args = num_args,
                      fsig_arg_names = arg_names, fsig_flags = lookupCallFlags E name,
                      fsig_offset = currentOffset (file p5)\<rparr>)
               in case store (functions p5) (unat i) new_sig of
                    Inl e \<Rightarrow> Inl e
                  | Inr m' \<Rightarrow>
                      Inr (new_sig,
                           p5\<lparr>functions := m', next_addr := next_addr p5 + 1,
                              glGetErrorSig :=
                                (if num_args = 0 \<and> is_glGetError name then Some new_sig
                                 else glGetErrorSig p5)\<rparr>)))) = Inr (s, p')"
      by (auto simp: parse_function_sig_def elim!: bind_resE)
    obtain n p4 where c: "read_uint p3 = (n, p4)" by (cases "read_uint p3")
    from b c obtain names p5 where d: "read_strings (unat (ucast n :: u32)) p4 = Inr (names, p5)"
      and e: "(let new_sig = (next_addr p5,
                     \<lparr>fsig_id = i, fsig_name = name, fsig_num_args = ucast n,
                      fsig_arg_names = names, fsig_flags = lookupCallFlags E name,
                      fsig_offset = currentOffset (file p5)\<rparr>)
               in case store (functions p5) (unat i) new_sig of
                    Inl e \<Rightarrow> Inl e
                  | Inr m' \<Rightarrow>
                      Inr (new_sig,
                           p5\<lparr>functions := m', next_addr := next_addr p5 + 1,
                              glGetErrorSig :=
                                (if (ucast n :: u32) = 0 \<and> is_glGetError name then Some new_sig
                                 else glGetErrorSig p5)\<rparr>)) = Inr (s, p')"
      by (auto simp: Let_def elim!: bind_resE)
    have of: "only_file ?p2 p5"
      using read_string_only_file[OF a] read_uint_only_file[OF c] read_strings_only_file[OF d]
      by (blast intro: only_file_trans)
    then have st: "functions p5 = m" by (auto simp: only_file_def)
    from e st obtain m' g where "store m (unat i) s = Inr m'"
      "p' = p5\<lparr>functions := m', next_addr := next_addr p5 + 1, glGetErrorSig := g\<rparr>"
      "fst s = next_addr p5"
      by (auto simp: Let_def split: sum.splits)
    with r l None of show ?thesis by (auto intro: first)
  next
    case (Some s')
    from lookup_Some[OF l[unfolded Some]] have m: "m = functions p1" by simp
    have of: "only_file p1 (skip_strings k (snd (read_uint (skip_string p1))))" for k
      using skip_string_only_file[of p1] read_uint_only_file[of "skip_string p1"]
        skip_strings_only_file
      by (metis only_file_trans prod.collapse)
    from assms r l Some m have "s = s' \<and> only_file p1 p'"
      using of by (auto simp: parse_function_sig_def Let_def split: if_splits prod.splits)
    with r l Some m show ?thesis by (auto intro: repeat)
  qed
qed

lemma parse_enum_sig_cases:
  assumes "parse_enum_sig p = Inr (s, p')"
  obtains (first) i p1 m p4 m' where
      "read_uint p = (i, p1)" "lookup (enums p1) i = (None, m)"
      "only_file (p1\<lparr>enums := m\<rparr>) p4" "store m (unat i) s = Inr m'"
      "p' = p4\<lparr>enums := m', next_addr := next_addr p4 + 1\<rparr>"
      "fst s = next_addr p4"
    | (repeat) i p1 where
      "read_uint p = (i, p1)" "lookup (enums p1) i = (Some s, enums p1)"
      "only_file p1 p'"
proof -
  obtain i p1 where r: "read_uint p = (i, p1)" by (cases "read_uint p")
  obtain sg m where l: "lookup (enums p1) i = (sg, m)" by (cases "lookup (enums p1) i")
  show ?thesis
  proof (cases sg)
    case None
    let ?p2 = "p1\<lparr>enums := m\<rparr>"
    obtain n p3 where c: "read_uint ?p2 = (n, p3)" by (cases "read_uint ?p2")
    from assms r l None c obtain vals p4
      where d: "read_enum_values (unat (ucast n :: u32)) p3 = Inr (vals, p4)"
      and e: "(let new_sig = (next_addr p4,
                     \<lparr>esig_id = i, esig_num_values = ucast n, esig_values = vals,
                      esig_offset = currentOffset (file p4)\<rparr>)
               in case store (enums p4) (unat i) new_sig of
                    Inl e \<Rightarrow> Inl e
                  | Inr m' \<Rightarrow>
                      Inr (new_sig, p4\<lparr>enums := m', next_addr := next_addr p4 + 1\<rparr>)) = Inr (s, p')"
      by (auto simp: parse_enum_sig_def Let_def elim!: bind_resE)
    have of: "only_file ?p2 p4"
      using read_uint_only_file[OF c] read_enum_values_only_file[OF d]
      by (blast intro: only_file_trans)
    then have st: "enums p4 = m" by (auto simp: only_file_def)
    from e st obtain m' where "store m (unat i) s = Inr m'"
      "p' = p4\<lparr>enums := m', next_addr := next_addr p4 + 1\<rparr>" "fst s = next_addr p4"
      by (auto simp: Let_def split: sum.splits)
    with r l None of show ?thesis by (auto intro: first)
  next
    case (Some s')
    from lookup_Some[OF l[unfolded Some]] have m: "m = enums p1" by simp
    have of: "only_file p1 (skip_enum_values k (snd (read_uint p1)))" for k
      using read_uint_only_file[of p1] skip_enum_values_only_file
      by (metis only_file_trans prod.collapse)
    from assms r l Some m have "s = s' \<and> only_file p1 p'"
      using of by (auto simp: parse_enum_sig_def Let_def split: if_splits prod.splits)
    with r l Some m show ?thesis by (auto intro: repeat)
  qed
qed

lemma parse_bitmask_sig_cases:
  assumes "parse_bitmask_sig p = Inr (s, p')"
  obtains (first) i p1 m p4 m' where
      "read_uint p = (i, p1)" "lookup (bitmasks p1) i = (None, m)"
      "only_file (p1\<lparr>bitmasks := m\<rparr>) p4" "store m (unat i) s = Inr m'"
      "p' = p4\<lparr>bitmasks := m', next_addr := next_addr p4 + 1\<rparr>"
      "fst s = next_addr p4"
    | (repeat) i p1 where
      "read_uint p = (i, p1)" "lookup (bitmasks p1) i = (Some s, bitmasks p1)"
      "only_file p1 p'"
proof -
  obtain i p1 where r: "read_uint p = (i, p1)" by (cases "read_uint p")
  obtain sg m where l: "lookup (bitmasks p1) i = (sg, m)" by (cases "lookup (bitmasks p1) i")
  show ?thesis
  proof (cases sg)
    case None
    let ?p2 = "p1\<lparr>bitmasks := m\<rparr>"
    obtain n p3 where c: "read_uint ?p2 = (n, p3)" by (cases "read_uint ?p2")
    from assms r l None c obtain vals p4
      where d: "read_bitmask_flags (unat (ucast n :: u32)) p3 = Inr (vals, p4)"
      and e: "(let new_sig = (next_addr p4,
                     \<lparr>bsig_id = i, bsig_num_flags = ucast n, bsig_flags = vals,
                      bsig_offset = currentOffset (file p4)\<rparr>)
               in case store (bitmasks p4) (unat i) new_sig of
                    Inl e \<Rightarrow> Inl e
                  | Inr m' \<Rightarrow>
                      Inr (new_sig, p4\<lparr>bitmasks := m', next_addr := next_addr p4 + 1\<rparr>)) = Inr (s, p')"
      by (auto simp: parse_bitmask_sig_def Let_def elim!: bind_resE)
    have of: "only_file ?p2 p4"
      using read_uint_only_file[OF c] read_bitmask_flags_only_file[OF d]
      by (blast intro: only_file_trans)
    then have st: "bitmasks p4 = m" by (auto simp: only_file_def)
    from e st obtain m' where "store m (unat i) s = Inr m'"
      "p' = p4\<lparr>bitmasks := m', next_addr := next_addr p4 + 1\<rparr>" "fst s = next_addr p4"
      by (auto simp: Let_def split: sum.splits)
    with r l None of show ?thesis by (auto intro: first)
  next
    case (Some s')
    from lookup_Some[OF l[unfolded Some]] have m: "m = bitmasks p1" by simp
    have of: "only_file p1 (skip_bitmask_flags k (snd (read_uint p1)))" for k
      using read_uint_only_file[of p1] skip_bitmask_flags_only_file
      by (metis only_file_trans prod.collapse)
    from assms r l Some m have "s = s' \<and> only_file p1 p'"
      using of by (auto simp: parse_bitmask_sig_def Let_def split: if_splits prod.splits)
    with r l Some m show ?thesis by (auto intro: repeat)
  qed
qed

subsection \<open>The frame of the value decoder\<close>

lemma value_inv_refl [simp]: "value_inv p p"
  by (simp add: value_inv_def)

lemma value_inv_trans: "value_inv p q \<Longrightarrow> value_inv q r \<Longrightarrow> value_inv p r"
  unfolding value_inv_def
  by (elim conjE, intro conjI) (auto intro: file_adv_trans grows_trans)

lemma only_file_value_inv: "only_file p p' \<Longrightarrow> value_inv p p'"
  by (auto simp: only_file_def value_inv_def)

lemma parse_struct_sig_inv: "parse_struct_sig p = Inr (s, p') \<Longrightarrow> value_inv p p'"
proof (erule parse_struct_sig_cases)
  fix i p1 m p5 m'
  assume a: "read_uint p = (i, p1)" "lookup (structs p1) i = (None, m)"
    "only_file (p1\<lparr>structs := m\<rparr>) p5" "store m (unat i) s = Inr m'"
    "p' = p5\<lparr>structs := m', next_addr := next_addr p5 + 1\<rparr>"
  from lookup_None_store_grows[OF a(2) a(4)] have g: "grows (structs p1) m'" by simp
  from read_uint_only_file[OF a(1)] a(3) a(5) g show "value_inv p p'"
    by (auto simp: only_file_def value_inv_def intro: file_adv_trans)
next
  fix i p1
  assume "read_uint p = (i, p1)" "only_file p1 p'"
  then show "value_inv p p'"
    by (blast intro: only_file_value_inv only_file_trans read_uint_only_file)
qed

lemma parse_enum_sig_inv: "parse_enum_sig p = Inr (s, p') \<Longrightarrow> value_inv p p'"
proof (erule parse_enum_sig_cases)
  fix i p1 m p5 m'
  assume a: "read_uint p = (i, p1)" "lookup (enums p1) i = (None, m)"
    "only_file (p1\<lparr>enums := m\<rparr>) p5" "store m (unat i) s = Inr m'"
    "p' = p5\<lparr>enums := m', next_addr := next_addr p5 + 1\<rparr>"
  from lookup_None_store_grows[OF a(2) a(4)] have g: "grows (enums p1) m'" by simp
  from read_uint_only_file[OF a(1)] a(3) a(5) g show "value_inv p p'"
    by (auto simp: only_file_def value_inv_def intro: file_adv_trans)
next
  fix i p1
  assume "read_uint p = (i, p1)" "only_file p1 p'"
  then show "value_inv p p'"
    by (blast intro: only_file_value_inv only_file_trans read_uint_only_file)
qed

lemma parse_bitmask_sig_inv: "parse_bitmask_sig p = Inr (s, p') \<Longrightarrow> value_inv p p'"
proof (erule parse_bitmask_sig_cases)
  fix i p1 m p5 m'
  assume a: "read_uint p = (i, p1)" "lookup (bitmasks p1) i = (None, m)"
    "only_file (p1\<lparr>bitmasks := m\<rparr>) p5" "store m (unat i) s = Inr m'"
    "p' = p5\<lparr>bitmasks := m', next_addr := next_addr p5 + 1\<rparr>"
  from lookup_None_store_grows[OF a(2) a(4)] have g: "grows (bitmasks p1) m'" by simp
  from read_uint_only_file[OF a(1)] a(3) a(5) g show "value_inv p p'"
    by (auto simp: only_file_def value_inv_def intro: file_adv_trans)
next
  fix i p1
  assume "read_uint p = (i, p1)" "only_file p1 p'"
  then show "value_inv p p'"
    by (blast intro: only_file_value_inv only_file_trans read_uint_only_file)
qed

lemma scan_prims_only_file:
  "only_file p (scan_sint p)" "only_file p (scan_uint p)" "only_file p (scan_float p)"
  "only_file p (scan_double p)" "only_file p (scan_string p)" "only_file p (scan_blob p)"
  "only_file p (scan_opaque p)"
  by (auto simp: scan_sint_def scan_uint_def scan_float_def scan_double_def scan_string_def
      scan_blob_def scan_opaque_def split: prod.splits
      intro: skip_uint_only_file skip_string_only_file only_file_update file_skip_adv
      dest!: read_uint_only_file
      intro: only_file_trans)

lemma scan_bitmask_inv: "scan_bitmask p = Inr (x, p') \<Longrightarrow> value_inv p p'"
  unfolding scan_bitmask_def
  by (auto elim!: bind_resE dest!: parse_bitmask_sig_inv
      intro: value_inv_trans only_file_value_inv skip_uint_only_file)

lemma scan_values_inv:
  "scan_ok k \<Longrightarrow> scan_values k n p = Inr (x, p') \<Longrightarrow> value_inv p p'"
proof (induction n arbitrary: p)
  case 0
  then show ?case by simp
next
  case (Suc n)
  from Suc.prems(2) obtain u p1 where a: "scan_value_fuel k p = Inr (u, p1)"
    and b: "scan_values k n p1 = Inr (x, p')"
    by (auto elim!: bind_resE)
  from Suc.prems(1) a have "value_inv p p1" by (auto simp: scan_ok_def)
  with Suc.IH[OF Suc.prems(1) b] show ?case by (blast intro: value_inv_trans)
qed

lemma scan_array_inv:
  "scan_ok k \<Longrightarrow> scan_array k p = Inr (x, p') \<Longrightarrow> value_inv p p'"
  by (auto simp: scan_array.simps split: prod.splits dest!: read_uint_only_file scan_values_inv
      intro: value_inv_trans only_file_value_inv)

lemma scan_struct_inv:
  "scan_ok k \<Longrightarrow> scan_struct k p = Inr (x, p') \<Longrightarrow> value_inv p p'"
  by (auto simp: scan_struct.simps elim!: bind_resE dest!: parse_struct_sig_inv scan_values_inv
      intro: value_inv_trans)

lemma parse_old_enum_sig_cases:
  assumes "parse_old_enum_sig k p = Inr (s, p')"
  obtains (first) i p1 m p4 m' where
      "read_uint p = (i, p1)" "lookup (enums p1) i = (None, m)"
      "only_file (p1\<lparr>enums := m\<rparr>) p4" "store m (unat i) s = Inr m'"
      "p' = p4\<lparr>enums := m', next_addr := next_addr p4 + 1\<rparr>"
      "fst s = next_addr p4"
    | (skipped) i p1 where
      "read_uint p = (i, p1)" "lookup (enums p1) i = (Some s, enums p1)"
      "currentOffset (file p1) < esig_offset (snd s)"
      "scan_value_fuel k (skip_string p1) = Inr ((), p')"
    | (repeat) i where
      "read_uint p = (i, p')" "lookup (enums p') i = (Some s, enums p')"
      "\<not> currentOffset (file p') < esig_offset (snd s)"
proof -
  obtain i p1 where r: "read_uint p = (i, p1)" by (cases "read_uint p")
  obtain sg m where l: "lookup (enums p1) i = (sg, m)" by (cases "lookup (enums p1) i")
  show ?thesis
  proof (cases sg)
    case None
    let ?p2 = "p1\<lparr>enums := m\<rparr>"
    from assms r l None obtain name p3 v p4
      where a: "read_string ?p2 = Inr (name, p3)"
      and d: "read_sint p3 = Inr (v, p4)"
      and e: "(let new_sig = (next_addr p4,
                    \<lparr>esig_id = i, esig_num_values = 1, esig_values = [(name, v)],
                     esig_offset = currentOffset (file p4)\<rparr>)
              in case store (enums p4) (unat i) new_sig of
                   Inl e \<Rightarrow> Inl e
                 | Inr m' \<Rightarrow>
                     Inr (new_sig, p4\<lparr>enums := m', next_addr := next_addr p4 + 1\<rparr>)) = Inr (s, p')"
      by (auto simp: parse_old_enum_sig.simps Let_def elim!: bind_resE)
    have of: "only_file ?p2 p4"
      using read_string_only_file[OF a] read_sint_only_file[OF d]
      by (blast intro: only_file_trans)
    then have st: "enums p4 = m" by (auto simp: only_file_def)
    from e st obtain m' where "store m (unat i) s = Inr m'"
      "p' = p4\<lparr>enums := m', next_addr := next_addr p4 + 1\<rparr>" "fst s = next_addr p4"
      by (auto simp: Let_def split: sum.splits)
    with r l None of show ?thesis by (auto intro: first)
  next
    case (Some s')
    from lookup_Some[OF l[unfolded Some]] have m: "m = enums p1" by simp
    show ?thesis
    proof (cases "currentOffset (file p1) < esig_offset (snd s')")
      case True
      with assms r l Some m have "s = s'" "scan_value_fuel k (skip_string p1) = Inr ((), p')"
        by (auto simp: parse_old_enum_sig.simps Let_def elim!: bind_resE)
      with r l Some m True show ?thesis by (auto intro: skipped)
    next
      case False
      with assms r l Some m have "s = s'" "p' = p1"
        by (auto simp: parse_old_enum_sig.simps Let_def)
      with r l Some m False show ?thesis by (auto intro: repeat)
    qed
  qed
qed

lemma parse_old_enum_sig_inv:
  assumes "scan_ok k" and "parse_old_enum_sig k p = Inr (s, p')"
  shows "value_inv p p'"
  using assms(2)
proof (cases rule: parse_old_enum_sig_cases)
  case (first i p1 m p4 m')
  from lookup_None_store_grows[OF first(2) first(4)] have g: "grows (enums p1) m'" by simp
  from read_uint_only_file[OF first(1)] first(3) first(5) g show ?thesis
    by (auto simp: only_file_def value_inv_def intro: file_adv_trans)
next
  case (skipped i p1)
  from assms(1) skipped(4) have "value_inv (skip_string p1) p'"
    by (auto simp: scan_ok_def)
  moreover have "value_inv p (skip_string p1)"
    using read_uint_only_file[OF skipped(1)] skip_string_only_file[of p1]
    by (blast intro: only_file_value_inv only_file_trans)
  ultimately show ?thesis by (rule value_inv_trans[rotated])
next
  case (repeat i)
  then show ?thesis by (blast intro: only_file_value_inv read_uint_only_file)
qed

lemma scan_enum_inv:
  assumes "scan_ok k" and "scan_enum k p = Inr (x, p')"
  shows "value_inv p p'"
proof (cases "version p \<ge> 3")
  case True
  with assms(2) obtain s p1 where "parse_enum_sig p = Inr (s, p1)" "p' = skip_sint p1"
    by (auto simp: scan_enum.simps elim!: bind_resE)
  then show ?thesis
    by (blast intro: value_inv_trans parse_enum_sig_inv only_file_value_inv skip_sint_only_file)
next
  case False
  with assms(2) obtain s where "parse_old_enum_sig k p = Inr (s, p')"
    by (auto simp: scan_enum.simps elim!: bind_resE)
  with assms(1) show ?thesis by (rule parse_old_enum_sig_inv)
qed

lemma scan_value_fuel_step:
  assumes "scan_ok k"
  shows "scan_ok (Suc k)"
  unfolding scan_ok_def
proof (intro allI impI)
  fix p p' x
  assume a: "scan_value_fuel (Suc k) p = Inr (x, p')"
  obtain c p1 where r: "read_byte p = (c, p1)" by (cases "read_byte p")
  note v1 = only_file_value_inv[OF read_byte_only_file[OF r]]
  show "value_inv p p'"
  proof (cases c)
    case None
    with a r v1 show ?thesis by simp
  next
    case (Some b)
    have "value_inv p1 p'"
      using a r Some assms
      by (auto split: if_splits
          intro: only_file_value_inv scan_prims_only_file
          dest: scan_enum_inv scan_bitmask_inv scan_array_inv scan_struct_inv)
    with v1 show ?thesis by (rule value_inv_trans)
  qed
qed

lemma scan_ok_all: "scan_ok k"
proof (induction k)
  case 0
  show ?case by (simp add: scan_ok_def)
next
  case (Suc k)
  then show ?case by (rule scan_value_fuel_step)
qed

lemma scan_value_fuel_inv: "scan_value_fuel k p = Inr (x, p') \<Longrightarrow> value_inv p p'"
  using scan_ok_all[of k] by (auto simp: scan_ok_def)

lemma scan_value_inv: "scan_value p = Inr (x, p') \<Longrightarrow> value_inv p p'"
  unfolding scan_value_def by (rule scan_value_fuel_inv)

lemma parse_prims_only_file:
  "parse_sint p = (v, p') \<Longrightarrow> only_file p p'"
  "parse_uint p = (v, p') \<Longrightarrow> only_file p p'"
  "parse_float p = (v, p') \<Longrightarrow> only_file p p'"
  "parse_double p = (v, p') \<Longrightarrow> only_file p p'"
  "parse_blob p = (v, p') \<Longrightarrow> only_file p p'"
  "parse_opaque p = (v, p') \<Longrightarrow> only_file p p'"
  by (auto simp: parse_sint_def parse_uint_def parse_float_def parse_double_def
      parse_blob_def parse_opaque_def split: prod.splits if_splits
      dest!: read_uint_only_file file_read_adv
      intro: only_file_trans only_file_update only_file_file file_adv_trans)

lemma parse_string_inv: "parse_string p = Inr (v, p') \<Longrightarrow> value_inv p p'"
  unfolding parse_string_def
  by (auto elim!: bind_resE dest!: read_string_only_file intro: only_file_value_inv)

lemma parse_bitmask_inv:
  assumes "parse_bitmask p = Inr (v, p')"
  shows "value_inv p p'"
proof -
  from assms obtain s p1 where a: "parse_bitmask_sig p = Inr (s, p1)"
    and b: "snd (read_uint p1) = p'"
    unfolding parse_bitmask_def by (auto elim!: bind_resE split: prod.splits)
  have "only_file p1 p'"
    using read_uint_only_file[of p1] b by (metis prod.collapse)
  with parse_bitmask_sig_inv[OF a] show ?thesis
    by (blast intro: value_inv_trans only_file_value_inv)
qed

lemma parse_enum_inv:
  assumes "parse_enum k p = Inr (v, p')"
  shows "value_inv p p'"
proof (cases "version p \<ge> 3")
  case True
  with assms obtain s p1 x where a: "parse_enum_sig p = Inr (s, p1)"
    and b: "read_sint p1 = Inr (x, p')"
    unfolding parse_enum_def by (auto elim!: bind_resE)
  from parse_enum_sig_inv[OF a] read_sint_only_file[OF b] show ?thesis
    by (blast intro: value_inv_trans only_file_value_inv)
next
  case False
  with assms obtain s where "parse_old_enum_sig k p = Inr (s, p')"
    unfolding parse_enum_def
    by (auto elim!: bind_resE split: if_splits list.splits)
  then show ?thesis by (rule parse_old_enum_sig_inv[OF scan_ok_all])
qed

lemma parse_values_inv:
  "parse_ok k \<Longrightarrow> parse_values k n p = Inr (x, p') \<Longrightarrow> value_inv p p'"
proof (induction n arbitrary: p x)
  case 0
  then show ?case by simp
next
  case (Suc n)
  from Suc.prems(2) obtain u p1 vs where a: "parse_value_fuel k p = Inr (u, p1)"
    and b: "parse_values k n p1 = Inr (vs, p')"
    by (auto elim!: bind_resE)
  from Suc.prems(1) a have "value_inv p p1" by (auto simp: parse_ok_def)
  with Suc.IH[OF Suc.prems(1) b] show ?case by (blast intro: value_inv_trans)
qed

lemma parse_array_inv:
  assumes "parse_ok k" and "parse_array k p = Inr (x, p')"
  shows "value_inv p p'"
proof -
  obtain n p1 where r: "read_uint p = (n, p1)" by (cases "read_uint p")
  with assms(2) obtain vs where "parse_values k (unat n) p1 = Inr (vs, p')"
    by (auto simp: parse_array.simps elim!: bind_resE)
  from parse_values_inv[OF assms(1) this] read_uint_only_file[OF r] show ?thesis
    by (blast intro: value_inv_trans only_file_value_inv)
qed

lemma parse_struct_inv:
  assumes "parse_ok k" and "parse_struct k p = Inr (x, p')"
  shows "value_inv p p'"
proof -
  from assms(2) obtain s p1 vs where a: "parse_struct_sig p = Inr (s, p1)"
    and b: "parse_values k (unat (ssig_num_members (snd s))) p1 = Inr (vs, p')"
    by (auto simp: parse_struct.simps elim!: bind_resE)
  from parse_values_inv[OF assms(1) b] parse_struct_sig_inv[OF a] show ?thesis
    by (blast intro: value_inv_trans)
qed

lemma parse_value_fuel_step:
  assumes "parse_ok k"
  shows "parse_ok (Suc k)"
  unfolding parse_ok_def
proof (intro allI impI)
  fix p p' x
  assume a: "parse_value_fuel (Suc k) p = Inr (x, p')"
  obtain c p1 where r: "read_byte p = (c, p1)" by (cases "read_byte p")
  note v1 = only_file_value_inv[OF read_byte_only_file[OF r]]
  show "value_inv p p'"
  proof (cases c)
    case None
    with a r v1 show ?thesis by simp
  next
    case (Some b)
    have "value_inv p1 p'"
      using a r Some assms
      by (auto split: if_splits prod.splits elim!: bind_resE
          intro: only_file_value_inv parse_prims_only_file
          dest: parse_enum_inv parse_bitmask_inv parse_array_inv parse_struct_inv
                parse_string_inv)
    with v1 show ?thesis by (rule value_inv_trans)
  qed
qed

lemma parse_ok_all: "parse_ok k"
proof (induction k)
  case 0
  show ?case by (simp add: parse_ok_def)
next
  case (Suc k)
  then show ?case by (rule parse_value_fuel_step)
qed

lemma parse_value_fuel_inv: "parse_value_fuel k p = Inr (x, p') \<Longrightarrow> value_inv p p'"
  using parse_ok_all[of k] by (auto simp: parse_ok_def)

lemma parse_value_inv: "parse_value p = Inr (x, p') \<Longrightarrow> value_inv p p'"
  unfolding parse_value_def by (rule parse_value_fuel_inv)

subsection \<open>The frame of the call assembler\<close>

lemma parse_value_mode_inv: "parse_value_mode mode p = Inr (x, p') \<Longrightarrow> value_inv p p'"
  unfolding parse_value_mode_def by (rule parse_value_inv)

lemma parse_arg_inv:
  assumes "parse_arg call mode p = Inr (call', p')"
  shows "value_inv p p' \<and> c_no call' = c_no call"
proof -
  obtain n p1 where r: "read_uint p = (n, p1)" by (cases "read_uint p")
  with assms obtain v where a: "parse_value_mode mode p1 = Inr (v, p')"
    and b: "c_no call' = c_no call"
    unfolding parse_arg_def
    by (auto simp: Let_def elim!: bind_resE split: option.splits sum.splits)
  from parse_value_mode_inv[OF a] read_uint_only_file[OF r] b show ?thesis
    by (blast intro: value_inv_trans only_file_value_inv)
qed

lemma parse_call_details_fuel_inv:
  "parse_call_details_fuel k call mode p = Inr ((ok, call'), p') \<Longrightarrow>
   value_inv p p' \<and> c_no call' = c_no call"
proof (induction k arbitrary: call p)
  case 0
  then show ?case by simp
next
  case (Suc k)
  obtain c p1 where r: "read_byte p = (c, p1)" by (cases "read_byte p")
  note v1 = only_file_value_inv[OF read_byte_only_file[OF r]]
  show ?case
  proof (cases c)
    case None
    with Suc.prems r v1 show ?thesis by simp
  next
    case (Some b)
    consider (e) "b = CALL_END" | (a) "b = CALL_ARG" | (r) "b = CALL_RET"
      | (o) "b \<noteq> CALL_END" "b \<noteq> CALL_ARG" "b \<noteq> CALL_RET"
      by blast
    then show ?thesis
    proof cases
      case e
      with Suc.prems r Some v1 show ?thesis by simp
    next
      case a
      with Suc.prems r Some obtain call1 p2 where x: "parse_arg call mode p1 = Inr (call1, p2)"
        and y: "parse_call_details_fuel k call1 mode p2 = Inr ((ok, call'), p')"
        by (auto elim!: bind_resE)
      from parse_arg_inv[OF x] Suc.IH[OF y] v1 show ?thesis
        by (auto intro: value_inv_trans)
    next
      case r
      with Suc.prems \<open>read_byte p = (c, p1)\<close> Some obtain v p2
        where x: "parse_value_mode mode p1 = Inr (v, p2)"
        and y: "parse_call_details_fuel k (call\<lparr>c_ret := v\<rparr>) mode p2 = Inr ((ok, call'), p')"
        by (auto elim!: bind_resE)
      from parse_value_mode_inv[OF x] Suc.IH[OF y] v1 show ?thesis
        by (auto intro: value_inv_trans)
    next
      case o
      with Suc.prems r Some show ?thesis by simp
    qed
  qed
qed

lemma parse_call_details_inv:
  "parse_call_details call mode p = Inr ((ok, call'), p') \<Longrightarrow>
   value_inv p p' \<and> c_no call' = c_no call"
  unfolding parse_call_details_def by (rule parse_call_details_fuel_inv)

lemma call_inv_refl [simp]: "call_inv p p"
  by (simp add: call_inv_def)

lemma call_inv_trans: "call_inv p q \<Longrightarrow> call_inv q r \<Longrightarrow> call_inv p r"
  unfolding call_inv_def
  by (elim conjE, intro conjI) (auto intro: file_adv_trans grows_trans)

lemma value_inv_call_inv: "value_inv p p' \<Longrightarrow> call_inv p p'"
  by (simp add: value_inv_def call_inv_def)

lemma parse_function_sig_inv:
  assumes "parse_function_sig E p = Inr (s, p')"
  shows "call_inv p p' \<and> next_call_no p' = next_call_no p \<and> calls p' = calls p"
  using assms
proof (cases rule: parse_function_sig_cases)
  case (first i p1 m p5 m' g)
  from lookup_None_store_grows[OF first(2) first(4)] have g: "grows (functions p1) m'" by simp
  from read_uint_only_file[OF first(1)] first(3) first(5) g show ?thesis
    by (auto simp: only_file_def call_inv_def intro: file_adv_trans)
next
  case (repeat i p1)
  then have "only_file p p'"
    by (blast intro: only_file_trans read_uint_only_file)
  then show ?thesis by (auto simp: only_file_def call_inv_def)
qed

text \<open>What \<open>parse_enter\<close> does to the call counter and the pending buffer.\<close>

lemma parse_enter_effect:
  assumes "parse_enter E mode p = Inr (u, p')"
  shows "call_inv p p' \<and> next_call_no p' = next_call_no p + 1
         \<and> (calls p' = calls p
            \<or> (\<exists>c. calls p' = calls p @ [c] \<and> c_no c = next_call_no p))"
proof -
  obtain t p1 where t: "(if version p \<ge> 4 then (let (t, p') = read_uint p in (ucast t :: u32, p'))
             else (0, p)) = (t, p1)"
    by (cases "(if version p \<ge> 4 then (let (t, p') = read_uint p in (ucast t :: u32, p'))
             else (0, p))")
  then have of: "only_file p p1"
    by (auto split: if_splits prod.splits dest: read_uint_only_file)
  from assms t obtain s p2 ok call' p4
    where a: "parse_function_sig E p1 = Inr (s, p2)"
      and b: "parse_call_details
                ((new_Call s (fsig_flags (snd s)) t)\<lparr>c_no := next_call_no p2\<rparr>) mode
                (p2\<lparr>next_call_no := next_call_no p2 + 1\<rparr>) = Inr ((ok, call'), p4)"
      and c: "p' = (if ok then p4\<lparr>calls := calls p4 @ [call']\<rparr> else p4)"
    unfolding parse_enter_def
    by (auto simp: Let_def elim!: bind_resE split: if_splits)
  note fa = parse_function_sig_inv[OF a]
  note d = parse_call_details_inv[OF b]
  from of have s1: "call_inv p p1" "next_call_no p1 = next_call_no p" "calls p1 = calls p"
    by (auto simp: only_file_def call_inv_def)
  from d have s3: "call_inv (p2\<lparr>next_call_no := next_call_no p2 + 1\<rparr>) p4"
    "next_call_no p4 = next_call_no p2 + 1" "calls p4 = calls p2" "c_no call' = next_call_no p2"
    by (auto simp: value_inv_def call_inv_def)
  then have s3': "call_inv p2 p4" by (simp add: call_inv_def)
  have s4: "call_inv p4 p'" using c by (simp add: call_inv_def)
  have "call_inv p p'"
    using s1(1) fa s3' s4 by (blast intro: call_inv_trans)
  moreover have "next_call_no p' = next_call_no p + 1"
    using c s3(2) fa s1(2) by (simp split: if_splits)
  moreover have "calls p' = calls p \<or> (\<exists>c. calls p' = calls p @ [c] \<and> c_no c = next_call_no p)"
    using c s3(3,4) fa s1(2,3) by (cases ok) auto
  ultimately show ?thesis by blast
qed


lemma take_call_None: "take_call n cs = None \<longleftrightarrow> (\<forall>x \<in> set cs. c_no x \<noteq> n)"
  by (induction cs) auto

lemma parse_leave_effect:
  assumes "parse_leave mode p = Inr (r, p')"
  shows "call_inv p p' \<and> next_call_no p' = next_call_no p"
proof -
  obtain ct p1 where a: "parse_uint p = (ct, p1)" by (cases "parse_uint p")
  obtain n p2 where b: "read_uint p1 = (n, p2)" by (cases "read_uint p1")
  have of: "only_file p p2"
    using parse_prims_only_file(2)[OF a] read_uint_only_file[OF b]
    by (rule only_file_trans)
  show ?thesis
  proof (cases "take_call (ucast n) (calls p2)")
    case None
    with assms a b have "p' = p2" by (simp add: parse_leave_def)
    with of show ?thesis by (auto simp: only_file_def call_inv_def)
  next
    case (Some cr)
    obtain call rest where cr: "cr = (call, rest)" by (cases cr)
    from assms a b Some cr obtain ok call'
      where d: "parse_call_details (call\<lparr>c_call_time := Some ct\<rparr>) mode (p2\<lparr>calls := rest\<rparr>)
                 = Inr ((ok, call'), p')"
      by (auto simp: parse_leave_def elim!: bind_resE)
    from parse_call_details_inv[OF d] of show ?thesis
      by (auto simp: only_file_def call_inv_def value_inv_def intro: file_adv_trans)
  qed
qed

lemma parse_call_fuel_inv:
  "parse_call_fuel k E mode p = Inr (r, p') \<Longrightarrow> call_inv p p'"
proof (induction k arbitrary: p)
  case 0
  then show ?case by simp
next
  case (Suc k)
  obtain c p1 where r: "read_byte p = (c, p1)" by (cases "read_byte p")
  have v1: "call_inv p p1"
    using read_byte_only_file[OF r] by (auto simp: only_file_def call_inv_def)
  show ?case
  proof (cases c)
    case None
    with Suc.prems r have "p' = p1 \<or> p' = p1\<lparr>calls := tl (calls p1)\<rparr>"
      by (auto simp: Let_def split: if_splits sum.splits)
    then have "call_inv p1 p'" by (auto simp: call_inv_def)
    with v1 show ?thesis by (rule call_inv_trans)
  next
    case (Some b)
    consider (e) "b = EVENT_ENTER" | (l) "b = EVENT_LEAVE"
      | (o) "b \<noteq> EVENT_ENTER" "b \<noteq> EVENT_LEAVE"
      by blast
    then show ?thesis
    proof cases
      case e
      with Suc.prems r Some obtain u p2 where x: "parse_enter E mode p1 = Inr (u, p2)"
        and y: "parse_call_fuel k E mode p2 = Inr (r, p')"
        by (auto elim!: bind_resE)
      from parse_enter_effect[OF x] Suc.IH[OF y] v1 show ?thesis
        by (blast intro: call_inv_trans)
    next
      case l
      with Suc.prems \<open>read_byte p = (c, p1)\<close> Some obtain call
        where x: "parse_leave mode p1 = Inr (call, p')"
        by (auto elim!: bind_resE split: sum.splits)
      from parse_leave_effect[OF x] v1 show ?thesis
        by (blast intro: call_inv_trans)
    next
      case o
      with Suc.prems r Some show ?thesis by simp
    qed
  qed
qed

lemma parse_call_inv: "parse_call E mode p = Inr (r, p') \<Longrightarrow> call_inv p p'"
  unfolding parse_call_def by (rule parse_call_fuel_inv)

subsection \<open>Bookmarks\<close>

text \<open>
  C8. \<open>setBookmark\<close> restores exactly the file offset and \<open>next_call_no\<close> that
  \<open>getBookmark\<close> captured, empties the pending-call buffer and leaves the four
  signature tables as they are, whatever the parser did in between.
\<close>

theorem setBookmark_restores:
  "currentOffset (file (setBookmark (getBookmark p0) p)) = currentOffset (file p0)
   \<and> next_call_no (setBookmark (getBookmark p0) p) = next_call_no p0
   \<and> calls (setBookmark (getBookmark p0) p) = []
   \<and> functions (setBookmark (getBookmark p0) p) = functions p
   \<and> structs (setBookmark (getBookmark p0) p) = structs p
   \<and> enums (setBookmark (getBookmark p0) p) = enums p
   \<and> bitmasks (setBookmark (getBookmark p0) p) = bitmasks p"
  by (simp add: setBookmark_def getBookmark_def currentOffset_def setCurrentOffset_def)

subsection \<open>The flag adjustment\<close>

text \<open>
  C7. For a call \<open>c\<close> handed to \<open>adjust_call_flags\<close>: the result is \<open>c\<close> with
  \<open>CALL_FLAG_VERBOSE\<close> OR-ed into its flags if the call's signature pointer is the
  cached \<open>glGetErrorSig\<close>, the call has a return value and \<open>toSInt\<close> of it is 0;
  otherwise the result is \<open>c\<close> unchanged. No other field changes in either case.
\<close>

theorem adjust_call_flags_verbose:
  "adjust_call_flags E p (Some c) =
     Inr (c\<lparr>c_flags :=
            (if (\<exists>g. glGetErrorSig p = Some g \<and> fst (c_sig c) = fst g)
                \<and> (\<exists>r. c_ret c = Some r \<and> toSInt E r = 0)
             then c_flags c OR CALL_FLAG_VERBOSE E else c_flags c)\<rparr>)"
  by (cases "glGetErrorSig p"; cases "c_ret c") (auto simp: adjust_call_flags_def)

subsection \<open>The end of the stream at an event tag\<close>


subsection \<open>Signature pointers are stable\<close>

lemma tables_grow_refl [simp]: "tables_grow p p"
  by (simp add: tables_grow_def)

lemma tables_grow_trans: "tables_grow p q \<Longrightarrow> tables_grow q r \<Longrightarrow> tables_grow p r"
  by (auto simp: tables_grow_def intro: grows_trans)

lemma call_inv_tables_grow: "call_inv p p' \<Longrightarrow> tables_grow p p'"
  by (simp add: call_inv_def tables_grow_def)

lemma session_step_tables_grow: "session_step E p p' \<Longrightarrow> tables_grow p p'"
proof (induction rule: session_step.induct)
  case (step_parse_call mode p r p')
  then show ?case by (blast intro: call_inv_tables_grow parse_call_inv)
next
  case (step_setBookmark p b)
  show ?case by (simp add: tables_grow_def setBookmark_def)
next
  case (step_parse_enter mode p u p')
  then show ?case by (blast intro: call_inv_tables_grow dest: parse_enter_effect)
next
  case (step_parse_leave mode p r p')
  then show ?case by (blast intro: call_inv_tables_grow dest: parse_leave_effect)
next
  case (step_parse_value p v p')
  then show ?case by (blast intro: call_inv_tables_grow value_inv_call_inv parse_value_inv)
next
  case (step_scan_value p u p')
  then show ?case by (blast intro: call_inv_tables_grow value_inv_call_inv scan_value_inv)
next
  case (step_function_sig p fs p')
  then show ?case by (blast intro: call_inv_tables_grow dest: parse_function_sig_inv)
next
  case (step_struct_sig p ss p')
  then show ?case by (blast intro: call_inv_tables_grow value_inv_call_inv parse_struct_sig_inv)
next
  case (step_enum_sig p es p')
  then show ?case by (blast intro: call_inv_tables_grow value_inv_call_inv parse_enum_sig_inv)
next
  case (step_old_enum_sig k p es p')
  then show ?case
    by (blast intro: call_inv_tables_grow value_inv_call_inv parse_old_enum_sig_inv scan_ok_all)
next
  case (step_bitmask_sig p bs p')
  then show ?case by (blast intro: call_inv_tables_grow value_inv_call_inv parse_bitmask_sig_inv)
next
  case (step_read p p')
  then show ?case by (auto simp: only_file_def tables_grow_def)
next
  case (step_pending p cs n)
  show ?case by (simp add: tables_grow_def)
qed

lemma session_tables_grow: "session E p p' \<Longrightarrow> tables_grow p p'"
  unfolding session_def
  by (induction rule: rtranclp_induct)
     (auto intro: tables_grow_trans session_step_tables_grow)

lemma grows_resolved: "grows m m' \<Longrightarrow> resolved m i = Some s \<Longrightarrow> resolved m' i = Some s"
  by (auto simp: grows_def resolved_def split: if_splits)

lemma resolved_lookup: "resolved m i = Some s \<Longrightarrow> lookup m i = (Some s, m)"
  by (auto simp: resolved_def lookup_def split: if_splits)

lemma function_sig_sighting:
  assumes "resolved (functions p) (fst (read_uint p)) = Some s"
  shows "\<exists>q. parse_function_sig E p = Inr (s, q)"
proof -
  obtain i p1 where r: "read_uint p = (i, p1)" by (cases "read_uint p")
  from read_uint_only_file[OF r] have "functions p1 = functions p" by (auto simp: only_file_def)
  with assms r have "lookup (functions p1) i = (Some s, functions p1)"
    by (simp add: resolved_lookup)
  with r show ?thesis
    by (simp add: parse_function_sig_def Let_def split: prod.splits)
qed

lemma struct_sig_sighting:
  assumes "resolved (structs p) (fst (read_uint p)) = Some s"
  shows "\<exists>q. parse_struct_sig p = Inr (s, q)"
proof -
  obtain i p1 where r: "read_uint p = (i, p1)" by (cases "read_uint p")
  from read_uint_only_file[OF r] have "structs p1 = structs p" by (auto simp: only_file_def)
  with assms r have "lookup (structs p1) i = (Some s, structs p1)"
    by (simp add: resolved_lookup)
  with r show ?thesis
    by (simp add: parse_struct_sig_def Let_def split: prod.splits)
qed

lemma enum_sig_sighting:
  assumes "resolved (enums p) (fst (read_uint p)) = Some s"
  shows "\<exists>q. parse_enum_sig p = Inr (s, q)"
proof -
  obtain i p1 where r: "read_uint p = (i, p1)" by (cases "read_uint p")
  from read_uint_only_file[OF r] have "enums p1 = enums p" by (auto simp: only_file_def)
  with assms r have "lookup (enums p1) i = (Some s, enums p1)"
    by (simp add: resolved_lookup)
  with r show ?thesis
    by (simp add: parse_enum_sig_def Let_def split: prod.splits)
qed

lemma bitmask_sig_sighting:
  assumes "resolved (bitmasks p) (fst (read_uint p)) = Some s"
  shows "\<exists>q. parse_bitmask_sig p = Inr (s, q)"
proof -
  obtain i p1 where r: "read_uint p = (i, p1)" by (cases "read_uint p")
  from read_uint_only_file[OF r] have "bitmasks p1 = bitmasks p" by (auto simp: only_file_def)
  with assms r have "lookup (bitmasks p1) i = (Some s, bitmasks p1)"
    by (simp add: resolved_lookup)
  with r show ?thesis
    by (simp add: parse_bitmask_sig_def Let_def split: prod.splits)
qed

text \<open>A sighting leaves the id resolved to the pointer it returns.\<close>

lemma function_sig_resolves:
  assumes "parse_function_sig E p = Inr (s, p')"
  shows "resolved (functions p') (fst (read_uint p)) = Some s"
  using assms
proof (cases rule: parse_function_sig_cases)
  case (first i p1 m p5 m' g)
  from lookup_None_store_grows[OF first(2) first(4)] first(1,5) show ?thesis
    by (simp add: resolved_def)
next
  case (repeat i p1)
  from repeat(3) have "functions p' = functions p1" by (auto simp: only_file_def)
  with lookup_Some[OF repeat(2)] repeat(1) show ?thesis by (simp add: resolved_def)
qed

lemma struct_sig_resolves:
  assumes "parse_struct_sig p = Inr (s, p')"
  shows "resolved (structs p') (fst (read_uint p)) = Some s"
  using assms
proof (cases rule: parse_struct_sig_cases)
  case (first i p1 m p5 m')
  from lookup_None_store_grows[OF first(2) first(4)] first(1,5) show ?thesis
    by (simp add: resolved_def)
next
  case (repeat i p1)
  from repeat(3) have "structs p' = structs p1" by (auto simp: only_file_def)
  with lookup_Some[OF repeat(2)] repeat(1) show ?thesis by (simp add: resolved_def)
qed

lemma enum_sig_resolves:
  assumes "parse_enum_sig p = Inr (s, p')"
  shows "resolved (enums p') (fst (read_uint p)) = Some s"
  using assms
proof (cases rule: parse_enum_sig_cases)
  case (first i p1 m p5 m')
  from lookup_None_store_grows[OF first(2) first(4)] first(1,5) show ?thesis
    by (simp add: resolved_def)
next
  case (repeat i p1)
  from repeat(3) have "enums p' = enums p1" by (auto simp: only_file_def)
  with lookup_Some[OF repeat(2)] repeat(1) show ?thesis by (simp add: resolved_def)
qed

lemma bitmask_sig_resolves:
  assumes "parse_bitmask_sig p = Inr (s, p')"
  shows "resolved (bitmasks p') (fst (read_uint p)) = Some s"
  using assms
proof (cases rule: parse_bitmask_sig_cases)
  case (first i p1 m p5 m')
  from lookup_None_store_grows[OF first(2) first(4)] first(1,5) show ?thesis
    by (simp add: resolved_def)
next
  case (repeat i p1)
  from repeat(3) have "bitmasks p' = bitmasks p1" by (auto simp: only_file_def)
  with lookup_Some[OF repeat(2)] repeat(1) show ?thesis by (simp add: resolved_def)
qed

text \<open>
  C2. Once an id has resolved to a signature in a state \<open>p\<close> of a decoding session, in
  every later state \<open>p'\<close> of the session a sighting of the same id by any of the four
  \<open>parse_*_sig\<close> operations returns that very pointer (the same address and the same
  object), and the id stays resolved to it.
\<close>

theorem signature_pointer_stable:
  assumes "session E p p'"
  shows "(\<forall>s. resolved (functions p) (fst (read_uint p')) = Some s \<longrightarrow>
            (\<exists>q. parse_function_sig E p' = Inr (s, q)
                 \<and> resolved (functions q) (fst (read_uint p')) = Some s))
       \<and> (\<forall>s. resolved (structs p) (fst (read_uint p')) = Some s \<longrightarrow>
            (\<exists>q. parse_struct_sig p' = Inr (s, q)
                 \<and> resolved (structs q) (fst (read_uint p')) = Some s))
       \<and> (\<forall>s. resolved (enums p) (fst (read_uint p')) = Some s \<longrightarrow>
            (\<exists>q. parse_enum_sig p' = Inr (s, q)
                 \<and> resolved (enums q) (fst (read_uint p')) = Some s))
       \<and> (\<forall>s. resolved (bitmasks p) (fst (read_uint p')) = Some s \<longrightarrow>
            (\<exists>q. parse_bitmask_sig p' = Inr (s, q)
                 \<and> resolved (bitmasks q) (fst (read_uint p')) = Some s))"
proof -
  from session_tables_grow[OF assms]
  have g: "grows (functions p) (functions p')" "grows (structs p) (structs p')"
    "grows (enums p) (enums p')" "grows (bitmasks p) (bitmasks p')"
    by (simp_all add: tables_grow_def)
  show ?thesis
  proof (intro conjI allI impI)
    fix s assume "resolved (functions p) (fst (read_uint p')) = Some s"
    from function_sig_sighting[OF grows_resolved[OF g(1) this], of E]
    show "\<exists>q. parse_function_sig E p' = Inr (s, q)
              \<and> resolved (functions q) (fst (read_uint p')) = Some s"
      by (blast intro: function_sig_resolves)
  next
    fix s assume "resolved (structs p) (fst (read_uint p')) = Some s"
    from struct_sig_sighting[OF grows_resolved[OF g(2) this]]
    show "\<exists>q. parse_struct_sig p' = Inr (s, q)
              \<and> resolved (structs q) (fst (read_uint p')) = Some s"
      by (blast intro: struct_sig_resolves)
  next
    fix s assume "resolved (enums p) (fst (read_uint p')) = Some s"
    from enum_sig_sighting[OF grows_resolved[OF g(3) this]]
    show "\<exists>q. parse_enum_sig p' = Inr (s, q)
              \<and> resolved (enums q) (fst (read_uint p')) = Some s"
      by (blast intro: enum_sig_resolves)
  next
    fix s assume "resolved (bitmasks p) (fst (read_uint p')) = Some s"
    from bitmask_sig_sighting[OF grows_resolved[OF g(4) this]]
    show "\<exists>q. parse_bitmask_sig p' = Inr (s, q)
              \<and> resolved (bitmasks q) (fst (read_uint p')) = Some s"
      by (blast intro: bitmask_sig_resolves)
  qed
qed

subsection \<open>Concrete runs\<close>

lemma getc_at [simp]:
  "getc \<lparr>contents = bs, cur = n\<rparr> =
     (if n < length bs then (Some (bs ! n), \<lparr>contents = bs, cur = n + 1\<rparr>)
      else (None, \<lparr>contents = bs, cur = n\<rparr>))"
  by (simp add: getc_def)

lemmas run_defs =
  open_trace_def read_uint_def file_read_uint_def read_uint_loop.simps
  skip_uint_def file_skip_uint.simps skip_byte_def file_skip_def skip_string_def
  skip_sint_def read_sint_def read_byte_def
  lookup_def resize_def store_def read_string_def file_read_def remaining_def
  is_glGetError_def glGetError_name_def currentOffset_def setCurrentOffset_def Let_def
  int_rounds_def

theorem signature_pointer_stable_witness:
  "(\<exists>q. parse_function_sig example_externals
          (setBookmark \<lparr>bm_offset = 20, bm_next_call_no = 7\<rparr>
             (example_session (replicate 30 0) 25)) = Inr (example_function_sig, q))
   \<and> (\<exists>q. parse_struct_sig
          (setBookmark \<lparr>bm_offset = 20, bm_next_call_no = 7\<rparr>
             (example_session (replicate 30 0) 25)) = Inr (example_struct_sig, q))
   \<and> (\<exists>q. parse_enum_sig
          (setBookmark \<lparr>bm_offset = 20, bm_next_call_no = 7\<rparr>
             (example_session (replicate 30 0) 25)) = Inr (example_enum_sig, q))
   \<and> (\<exists>q. parse_bitmask_sig
          (setBookmark \<lparr>bm_offset = 20, bm_next_call_no = 7\<rparr>
             (example_session (replicate 30 0) 25)) = Inr (example_bitmask_sig, q))"
proof -
  let ?p = "example_session (replicate 30 0) 25"
  let ?p' = "setBookmark \<lparr>bm_offset = 20, bm_next_call_no = 7\<rparr> ?p"
  have s: "session example_externals ?p ?p'"
    unfolding session_def by (rule r_into_rtranclp) (rule step_setBookmark)
  have i: "fst (read_uint ?p') = 0"
    by (simp add: setBookmark_def example_session_def run_defs)
  have r: "resolved (functions ?p) 0 = Some example_function_sig"
    "resolved (structs ?p) 0 = Some example_struct_sig"
    "resolved (enums ?p) 0 = Some example_enum_sig"
    "resolved (bitmasks ?p) 0 = Some example_bitmask_sig"
    by (simp_all add: resolved_def example_session_def)
  from signature_pointer_stable[OF s] r show ?thesis
    unfolding i by blast
qed

subsection \<open>The fuel of the wrappers is enough\<close>

lemma no_oof_Inr [simp]: "no_oof (Inr x)"
  by (simp add: no_oof_def)

lemma no_oof_Inl [simp]: "no_oof (Inl e) \<longleftrightarrow> e \<noteq> Out_of_fuel"
  by (simp add: no_oof_def)

lemma no_oof_bind:
  assumes "no_oof m" and "\<And>x p. m = Inr (x, p) \<Longrightarrow> no_oof (k x p)"
  shows "no_oof (bind_res m k)"
  using assms by (cases m) (auto simp: bind_res_def)

lemma no_oof_store: "no_oof (case store m i x of Inl e \<Rightarrow> Inl e | Inr m' \<Rightarrow> Inr (f m'))"
  by (simp add: store_def)

lemma no_oof_read_string [simp]: "no_oof (read_string p)"
  by (simp add: read_string_def Let_def split: prod.splits)

lemma no_oof_read_sint [simp]: "no_oof (read_sint p)"
  by (simp add: read_sint_def Let_def split: prod.splits option.splits)

lemma no_oof_read_strings [simp]: "no_oof (read_strings n p)"
  by (induction n arbitrary: p) (auto intro!: no_oof_bind)

lemma no_oof_read_enum_values [simp]: "no_oof (read_enum_values n p)"
  by (induction n arbitrary: p) (auto intro!: no_oof_bind)

lemma no_oof_read_bitmask_flags [simp]: "no_oof (read_bitmask_flags n p)"
  by (induction n arbitrary: p) (auto intro!: no_oof_bind split: prod.splits)

lemma no_oof_parse_function_sig [simp]: "no_oof (parse_function_sig E p)"
  unfolding parse_function_sig_def
  by (auto simp: Let_def store_def split: prod.splits option.splits intro!: no_oof_bind)

lemma no_oof_parse_struct_sig [simp]: "no_oof (parse_struct_sig p)"
  unfolding parse_struct_sig_def
  by (auto simp: Let_def store_def split: prod.splits option.splits intro!: no_oof_bind)

lemma no_oof_parse_enum_sig [simp]: "no_oof (parse_enum_sig p)"
  unfolding parse_enum_sig_def
  by (auto simp: Let_def store_def split: prod.splits option.splits intro!: no_oof_bind)

lemma no_oof_parse_bitmask_sig [simp]: "no_oof (parse_bitmask_sig p)"
  unfolding parse_bitmask_sig_def
  by (auto simp: Let_def store_def split: prod.splits option.splits intro!: no_oof_bind)

lemma value_inv_remaining:
  "value_inv p p' \<Longrightarrow> remaining (file p') \<le> remaining (file p)"
  by (auto simp: value_inv_def intro: file_adv_remaining)

lemma only_file_remaining:
  "only_file p p' \<Longrightarrow> remaining (file p') \<le> remaining (file p)"
  by (blast intro: value_inv_remaining only_file_value_inv)

lemma scan_values_total:
  "scan_total k \<Longrightarrow> remaining (file p) < k \<Longrightarrow> no_oof (scan_values k n p)"
proof (induction n arbitrary: p)
  case 0
  show ?case by simp
next
  case (Suc n)
  show ?case
    unfolding scan_values.simps
  proof (rule no_oof_bind)
    show "no_oof (scan_value_fuel k p)"
      using Suc.prems by (simp add: scan_total_def)
  next
    fix x p1
    assume "scan_value_fuel k p = Inr (x, p1)"
    from value_inv_remaining[OF scan_value_fuel_inv[OF this]] Suc.prems(2)
    have "remaining (file p1) < k" by simp
    from Suc.IH[OF Suc.prems(1) this] show "no_oof (scan_values k n p1)" .
  qed
qed

lemma scan_array_total:
  assumes "scan_total k" and "remaining (file p) < k"
  shows "no_oof (scan_array k p)"
proof -
  obtain n p1 where r: "read_uint p = (n, p1)" by (cases "read_uint p")
  from only_file_remaining[OF read_uint_only_file[OF r]] assms(2)
  have "remaining (file p1) < k" by simp
  from scan_values_total[OF assms(1) this] r show ?thesis
    by (simp add: scan_array.simps)
qed

lemma scan_struct_total:
  assumes "scan_total k" and "remaining (file p) < k"
  shows "no_oof (scan_struct k p)"
  unfolding scan_struct.simps
proof (rule no_oof_bind)
  show "no_oof (parse_struct_sig p)" by simp
next
  fix s p1
  assume "parse_struct_sig p = Inr (s, p1)"
  from value_inv_remaining[OF parse_struct_sig_inv[OF this]] assms(2)
  have "remaining (file p1) < k" by simp
  from scan_values_total[OF assms(1) this]
  show "no_oof (scan_values k (unat (ssig_num_members (snd s))) p1)" .
qed

lemma parse_old_enum_sig_total:
  assumes "scan_total k" and "remaining (file p) < k"
  shows "no_oof (parse_old_enum_sig k p)"
proof -
  obtain i p1 where r: "read_uint p = (i, p1)" by (cases "read_uint p")
  obtain sg m where l: "lookup (enums p1) i = (sg, m)" by (cases "lookup (enums p1) i")
  show ?thesis
  proof (cases sg)
    case None
    with r l show ?thesis
      by (auto simp: parse_old_enum_sig.simps Let_def store_def intro!: no_oof_bind)
  next
    case (Some s)
    let ?p2 = "p1\<lparr>enums := m\<rparr>"
    have "remaining (file (skip_string ?p2)) \<le> remaining (file ?p2)"
      by (rule only_file_remaining[OF skip_string_only_file])
    moreover have "remaining (file ?p2) \<le> remaining (file p)"
      using only_file_remaining[OF read_uint_only_file[OF r]] by simp
    ultimately have "remaining (file (skip_string ?p2)) < k" using assms(2) by simp
    with assms(1) have "no_oof (scan_value_fuel k (skip_string ?p2))"
      by (simp add: scan_total_def)
    with r l Some show ?thesis
      by (auto simp: parse_old_enum_sig.simps Let_def intro!: no_oof_bind)
  qed
qed

lemma scan_enum_total:
  assumes "scan_total k" and "remaining (file p) < k"
  shows "no_oof (scan_enum k p)"
  using parse_old_enum_sig_total[OF assms]
  by (auto simp: scan_enum.simps intro!: no_oof_bind)

lemma no_oof_scan_bitmask [simp]: "no_oof (scan_bitmask p)"
  by (auto simp: scan_bitmask_def intro!: no_oof_bind)

lemma scan_total_step:
  assumes "scan_total k"
  shows "scan_total (Suc k)"
  unfolding scan_total_def
proof (intro allI impI)
  fix p :: Parser
  assume a: "remaining (file p) < Suc k"
  obtain c p1 where r: "read_byte p = (c, p1)" by (cases "read_byte p")
  show "no_oof (scan_value_fuel (Suc k) p)"
  proof (cases c)
    case None
    with r show ?thesis by simp
  next
    case (Some b)
    from read_byte_Some_remaining[OF r[unfolded Some]] a
    have lt: "remaining (file p1) < k" by simp
    note t = scan_enum_total[OF assms lt] scan_array_total[OF assms lt]
      scan_struct_total[OF assms lt]
    from r Some t show ?thesis by simp
  qed
qed

lemma scan_total_all: "scan_total k"
proof (induction k)
  case 0
  show ?case by (simp add: scan_total_def)
next
  case (Suc k)
  then show ?case by (rule scan_total_step)
qed

text \<open>\<open>scan_value\<close> always returns: a result or a failure of the source's own.\<close>

lemma scan_value_returns: "scan_value p \<noteq> Inl Out_of_fuel"
  using scan_total_all[of "Suc (remaining (file p))"]
  by (simp add: scan_total_def scan_value_def no_oof_def)

lemma parse_values_total:
  "parse_total k \<Longrightarrow> remaining (file p) < k \<Longrightarrow> no_oof (parse_values k n p)"
proof (induction n arbitrary: p)
  case 0
  show ?case by simp
next
  case (Suc n)
  show ?case
    unfolding parse_values.simps
  proof (rule no_oof_bind)
    show "no_oof (parse_value_fuel k p)"
      using Suc.prems by (simp add: parse_total_def)
  next
    fix x p1
    assume "parse_value_fuel k p = Inr (x, p1)"
    from value_inv_remaining[OF parse_value_fuel_inv[OF this]] Suc.prems(2)
    have "remaining (file p1) < k" by simp
    from Suc.IH[OF Suc.prems(1) this]
    show "no_oof (bind_res (parse_values k n p1) (\<lambda>vs p2. Inr (x # vs, p2)))"
      by (auto intro!: no_oof_bind)
  qed
qed

lemma parse_array_total:
  assumes "parse_total k" and "remaining (file p) < k"
  shows "no_oof (parse_array k p)"
proof -
  obtain n p1 where r: "read_uint p = (n, p1)" by (cases "read_uint p")
  from only_file_remaining[OF read_uint_only_file[OF r]] assms(2)
  have "remaining (file p1) < k" by simp
  from parse_values_total[OF assms(1) this] r show ?thesis
    by (auto simp: parse_array.simps intro!: no_oof_bind)
qed

lemma parse_struct_total:
  assumes "parse_total k" and "remaining (file p) < k"
  shows "no_oof (parse_struct k p)"
  unfolding parse_struct.simps
proof (rule no_oof_bind)
  show "no_oof (parse_struct_sig p)" by simp
next
  fix s p1
  assume "parse_struct_sig p = Inr (s, p1)"
  from value_inv_remaining[OF parse_struct_sig_inv[OF this]] assms(2)
  have "remaining (file p1) < k" by simp
  from parse_values_total[OF assms(1) this]
  show "no_oof (bind_res (parse_values k (unat (ssig_num_members (snd s))) p1)
                  (\<lambda>vs p2. Inr (Some (Struct s vs), p2)))"
    by (auto intro!: no_oof_bind)
qed

lemma parse_enum_total:
  assumes "remaining (file p) < k"
  shows "no_oof (parse_enum k p)"
  using parse_old_enum_sig_total[OF scan_total_all assms]
  by (auto simp: parse_enum_def intro!: no_oof_bind split: list.splits)

lemma no_oof_parse_string [simp]: "no_oof (parse_string p)"
  by (auto simp: parse_string_def intro!: no_oof_bind)

lemma no_oof_parse_bitmask [simp]: "no_oof (parse_bitmask p)"
  by (auto simp: parse_bitmask_def intro!: no_oof_bind split: prod.splits)

lemma parse_total_step:
  assumes "parse_total k"
  shows "parse_total (Suc k)"
  unfolding parse_total_def
proof (intro allI impI)
  fix p :: Parser
  assume a: "remaining (file p) < Suc k"
  obtain c p1 where r: "read_byte p = (c, p1)" by (cases "read_byte p")
  show "no_oof (parse_value_fuel (Suc k) p)"
  proof (cases c)
    case None
    with r show ?thesis by simp
  next
    case (Some b)
    from read_byte_Some_remaining[OF r[unfolded Some]] a
    have lt: "remaining (file p1) < k" by simp
    note t = parse_enum_total[OF lt] parse_array_total[OF assms lt]
      parse_struct_total[OF assms lt]
    from r Some t show ?thesis
      by (auto split: prod.splits intro!: no_oof_bind)
  qed
qed

lemma parse_total_all: "parse_total k"
proof (induction k)
  case 0
  show ?case by (simp add: parse_total_def)
next
  case (Suc k)
  then show ?case by (rule parse_total_step)
qed

text \<open>\<open>parse_value\<close> always returns: a result or a failure of the source's own.\<close>

lemma parse_value_returns: "parse_value p \<noteq> Inl Out_of_fuel"
  using parse_total_all[of "Suc (remaining (file p))"]
  by (simp add: parse_total_def parse_value_def no_oof_def)

lemma no_oof_parse_value_mode [simp]: "no_oof (parse_value_mode mode p)"
  using parse_value_returns[of p] by (simp add: parse_value_mode_def no_oof_def)

lemma no_oof_parse_arg [simp]: "no_oof (parse_arg call mode p)"
  by (auto simp: parse_arg_def Let_def store_def split: prod.splits option.splits
      intro!: no_oof_bind)

lemma parse_call_details_fuel_total:
  "remaining (file p) < k \<Longrightarrow> no_oof (parse_call_details_fuel k call mode p)"
proof (induction k arbitrary: p call)
  case 0
  then show ?case by simp
next
  case (Suc k)
  obtain c p1 where r: "read_byte p = (c, p1)" by (cases "read_byte p")
  show ?case
  proof (cases c)
    case None
    with r show ?thesis by simp
  next
    case (Some b)
    from read_byte_Some_remaining[OF r[unfolded Some]] Suc.prems
    have lt: "remaining (file p1) < k" by simp
    have 1: "no_oof (bind_res (parse_arg call mode p1)
                       (\<lambda>call' p2. parse_call_details_fuel k call' mode p2))"
    proof (rule no_oof_bind)
      show "no_oof (parse_arg call mode p1)" by simp
    next
      fix x p2
      assume "parse_arg call mode p1 = Inr (x, p2)"
      from parse_arg_inv[OF this] have "remaining (file p2) \<le> remaining (file p1)"
        by (blast intro: value_inv_remaining)
      with lt have "remaining (file p2) < k" by simp
      then show "no_oof (parse_call_details_fuel k x mode p2)" by (rule Suc.IH)
    qed
    have 2: "no_oof (bind_res (parse_value_mode mode p1)
                       (\<lambda>v p2. parse_call_details_fuel k (call\<lparr>c_ret := v\<rparr>) mode p2))"
    proof (rule no_oof_bind)
      show "no_oof (parse_value_mode mode p1)" by simp
    next
      fix x p2
      assume "parse_value_mode mode p1 = Inr (x, p2)"
      from parse_value_mode_inv[OF this] have "remaining (file p2) \<le> remaining (file p1)"
        by (blast intro: value_inv_remaining)
      with lt have "remaining (file p2) < k" by simp
      then show "no_oof (parse_call_details_fuel k (call\<lparr>c_ret := x\<rparr>) mode p2)"
        by (rule Suc.IH)
    qed
    from r Some 1 2 show ?thesis by simp
  qed
qed

lemma no_oof_parse_call_details [simp]: "no_oof (parse_call_details call mode p)"
  unfolding parse_call_details_def by (rule parse_call_details_fuel_total) simp

lemma no_oof_parse_enter [simp]: "no_oof (parse_enter E mode p)"
  by (auto simp: parse_enter_def Let_def split: prod.splits if_splits intro!: no_oof_bind)

lemma no_oof_parse_leave [simp]: "no_oof (parse_leave mode p)"
  by (auto simp: parse_leave_def Let_def split: prod.splits option.splits intro!: no_oof_bind)

lemma call_inv_remaining:
  "call_inv p p' \<Longrightarrow> remaining (file p') \<le> remaining (file p)"
  by (auto simp: call_inv_def intro: file_adv_remaining)

lemma parse_call_fuel_total:
  "remaining (file p) < k \<Longrightarrow> no_oof (parse_call_fuel k E mode p)"
proof (induction k arbitrary: p)
  case 0
  then show ?case by simp
next
  case (Suc k)
  obtain c p1 where r: "read_byte p = (c, p1)" by (cases "read_byte p")
  show ?case
  proof (cases c)
    case None
    with r show ?thesis
      by (simp add: Let_def adjust_call_flags_def)
  next
    case (Some b)
    from read_byte_Some_remaining[OF r[unfolded Some]] Suc.prems
    have lt: "remaining (file p1) < k" by simp
    have 1: "no_oof (bind_res (parse_enter E mode p1) (\<lambda>u p2. parse_call_fuel k E mode p2))"
    proof (rule no_oof_bind)
      show "no_oof (parse_enter E mode p1)" by simp
    next
      fix x p2
      assume "parse_enter E mode p1 = Inr (x, p2)"
      from parse_enter_effect[OF this] have "remaining (file p2) \<le> remaining (file p1)"
        by (blast intro: call_inv_remaining)
      with lt have "remaining (file p2) < k" by simp
      then show "no_oof (parse_call_fuel k E mode p2)" by (rule Suc.IH)
    qed
    have 2: "no_oof (bind_res (parse_leave mode p1) (\<lambda>call p2.
              case adjust_call_flags E p2 call of
                Inl e \<Rightarrow> Inl e
              | Inr call' \<Rightarrow> Inr (Some call', p2)))"
      by (auto simp: adjust_call_flags_def intro!: no_oof_bind split: option.splits)
    from r Some 1 2 show ?thesis by simp
  qed
qed

text \<open>
  \<open>parse_call\<close> always returns: a call, null, or a failure of the source's own (an
  unknown tag, undefined behaviour).
\<close>

lemma parse_call_returns: "parse_call E mode p \<noteq> Inl Out_of_fuel"
  using parse_call_fuel_total[of p "Suc (remaining (file p))" E mode]
  by (simp add: parse_call_def no_oof_def)

subsection \<open>More fuel changes nothing\<close>

lemma no_oof_bindD1: "no_oof (bind_res m f) \<Longrightarrow> no_oof m"
  by (cases m) (auto simp: bind_res_def)

lemma no_oof_bindD2: "no_oof (bind_res m f) \<Longrightarrow> m = Inr (x, p) \<Longrightarrow> no_oof (f x p)"
  by (simp add: bind_res_def)

lemma bind_res_mono:
  assumes "no_oof (bind_res m f)"
    and "no_oof m \<Longrightarrow> m' = m"
    and "\<And>x p. m = Inr (x, p) \<Longrightarrow> no_oof (f x p) \<Longrightarrow> f' x p = f x p"
  shows "bind_res m' f' = bind_res m f"
proof -
  from assms(1) have n: "no_oof m" by (rule no_oof_bindD1)
  then have m: "m' = m" by (rule assms(2))
  show ?thesis
  proof (cases m)
    case (Inl e)
    with m show ?thesis by simp
  next
    case (Inr xp)
    obtain x p where xp: "xp = (x, p)" by (cases xp)
    from no_oof_bindD2[OF assms(1) Inr[unfolded xp]] have "no_oof (f x p)" .
    from assms(3)[OF Inr[unfolded xp] this] m Inr xp show ?thesis by simp
  qed
qed

lemma scan_values_mono:
  "scan_mono k \<Longrightarrow> no_oof (scan_values k n p) \<Longrightarrow> scan_values (Suc k) n p = scan_values k n p"
proof (induction n arbitrary: p)
  case 0
  show ?case by simp
next
  case (Suc n)
  show ?case
    unfolding scan_values.simps
  proof (rule bind_res_mono)
    show "no_oof (bind_res (scan_value_fuel k p) (\<lambda>u. scan_values k n))"
      using Suc.prems(2) by simp
  next
    assume "no_oof (scan_value_fuel k p)"
    with Suc.prems(1) show "scan_value_fuel (Suc k) p = scan_value_fuel k p"
      by (simp add: scan_mono_def)
  next
    fix x p1
    assume "no_oof (scan_values k n p1)"
    from Suc.IH[OF Suc.prems(1) this] show "scan_values (Suc k) n p1 = scan_values k n p1" .
  qed
qed

lemma scan_array_mono:
  "scan_mono k \<Longrightarrow> no_oof (scan_array k p) \<Longrightarrow> scan_array (Suc k) p = scan_array k p"
  by (auto simp: scan_array.simps split: prod.splits intro: scan_values_mono)

lemma scan_struct_mono:
  assumes "scan_mono k" and "no_oof (scan_struct k p)"
  shows "scan_struct (Suc k) p = scan_struct k p"
  unfolding scan_struct.simps
proof (rule bind_res_mono)
  show "no_oof (bind_res (parse_struct_sig p)
                  (\<lambda>sig. scan_values k (unat (ssig_num_members (snd sig)))))"
    using assms(2) by (simp add: scan_struct.simps)
next
  show "parse_struct_sig p = parse_struct_sig p" by simp
next
  fix x p1
  assume "no_oof (scan_values k (unat (ssig_num_members (snd x))) p1)"
  from scan_values_mono[OF assms(1) this]
  show "scan_values (Suc k) (unat (ssig_num_members (snd x))) p1
        = scan_values k (unat (ssig_num_members (snd x))) p1" .
qed

lemma parse_old_enum_sig_mono:
  assumes "scan_mono k" and "no_oof (parse_old_enum_sig k p)"
  shows "parse_old_enum_sig (Suc k) p = parse_old_enum_sig k p"
proof -
  obtain i p1 where r: "read_uint p = (i, p1)" by (cases "read_uint p")
  obtain sg m where l: "lookup (enums p1) i = (sg, m)" by (cases "lookup (enums p1) i")
  show ?thesis
  proof (cases sg)
    case None
    with r l show ?thesis by (simp add: parse_old_enum_sig.simps)
  next
    case (Some s)
    show ?thesis
    proof (cases "currentOffset (file (p1\<lparr>enums := m\<rparr>)) < esig_offset (snd s)")
      case True
      with assms(2) r l Some
      have "no_oof (bind_res (scan_value_fuel k (skip_string (p1\<lparr>enums := m\<rparr>)))
                     (\<lambda>u p3. Inr (s, p3)))"
        by (simp add: parse_old_enum_sig.simps Let_def)
      from no_oof_bindD1[OF this] assms(1)
      have "scan_value_fuel (Suc k) (skip_string (p1\<lparr>enums := m\<rparr>))
            = scan_value_fuel k (skip_string (p1\<lparr>enums := m\<rparr>))"
        by (simp add: scan_mono_def)
      with r l Some True show ?thesis
        by (simp add: parse_old_enum_sig.simps[of "Suc k"] parse_old_enum_sig.simps[of k] Let_def)
    next
      case False
      with r l Some show ?thesis by (simp add: parse_old_enum_sig.simps Let_def)
    qed
  qed
qed

lemma scan_enum_mono:
  assumes "scan_mono k" and "no_oof (scan_enum k p)"
  shows "scan_enum (Suc k) p = scan_enum k p"
proof (cases "version p \<ge> 3")
  case True
  then show ?thesis by (simp add: scan_enum.simps)
next
  case False
  with assms(2) have "no_oof (parse_old_enum_sig k p)"
    by (auto simp: scan_enum.simps dest: no_oof_bindD1)
  from parse_old_enum_sig_mono[OF assms(1) this] False show ?thesis
    by (simp add: scan_enum.simps)
qed

lemma scan_mono_step:
  assumes "scan_mono k"
  shows "scan_mono (Suc k)"
  unfolding scan_mono_def
proof (intro allI impI)
  fix p :: Parser
  assume a: "no_oof (scan_value_fuel (Suc k) p)"
  obtain c p1 where r: "read_byte p = (c, p1)" by (cases "read_byte p")
  show "scan_value_fuel (Suc (Suc k)) p = scan_value_fuel (Suc k) p"
  proof (cases c)
    case None
    with r show ?thesis by simp
  next
    case (Some t)
    from a r Some have
      "t = TYPE_ENUM \<Longrightarrow> no_oof (scan_enum k p1)"
      "t = TYPE_ARRAY \<Longrightarrow> no_oof (scan_array k p1)"
      "t = TYPE_STRUCT \<Longrightarrow> no_oof (scan_struct k p1)"
      by auto
    then have
      "t = TYPE_ENUM \<Longrightarrow> scan_enum (Suc k) p1 = scan_enum k p1"
      "t = TYPE_ARRAY \<Longrightarrow> scan_array (Suc k) p1 = scan_array k p1"
      "t = TYPE_STRUCT \<Longrightarrow> scan_struct (Suc k) p1 = scan_struct k p1"
      using assms by (auto intro: scan_enum_mono scan_array_mono scan_struct_mono)
    with r Some show ?thesis
      by (simp add: scan_value_fuel.simps(2)[of "Suc k"] scan_value_fuel.simps(2)[of k])
  qed
qed

lemma scan_mono_all: "scan_mono k"
proof (induction k)
  case 0
  show ?case by (simp add: scan_mono_def)
next
  case (Suc k)
  then show ?case by (rule scan_mono_step)
qed

lemma scan_value_fuel_more:
  "no_oof (scan_value_fuel k p) \<Longrightarrow> scan_value_fuel (k + j) p = scan_value_fuel k p"
proof (induction j)
  case 0
  show ?case by simp
next
  case (Suc j)
  from Suc.IH[OF Suc.prems] Suc.prems have "no_oof (scan_value_fuel (k + j) p)" by simp
  with scan_mono_all[of "k + j"] have
    "scan_value_fuel (Suc (k + j)) p = scan_value_fuel (k + j) p"
    by (simp add: scan_mono_def)
  with Suc.IH[OF Suc.prems] show ?case by simp
qed

text \<open>Any fuel above the number of unread bytes gives the result of \<open>scan_value\<close>.\<close>

lemma scan_value_fuel_eq:
  assumes "remaining (file p) < k"
  shows "scan_value_fuel k p = scan_value p"
proof -
  from assms obtain j where k: "k = Suc (remaining (file p)) + j"
    by (metis Suc_leI le_Suc_ex)
  have "no_oof (scan_value_fuel (Suc (remaining (file p))) p)"
    using scan_total_all[of "Suc (remaining (file p))"] by (simp add: scan_total_def)
  from scan_value_fuel_more[OF this, of j] k show ?thesis
    by (simp add: scan_value_def)
qed

lemma parse_values_mono:
  "parse_mono k \<Longrightarrow> no_oof (parse_values k n p) \<Longrightarrow> parse_values (Suc k) n p = parse_values k n p"
proof (induction n arbitrary: p)
  case 0
  show ?case by simp
next
  case (Suc n)
  show ?case
    unfolding parse_values.simps
  proof (rule bind_res_mono)
    show "no_oof (bind_res (parse_value_fuel k p)
                    (\<lambda>v p1. bind_res (parse_values k n p1) (\<lambda>vs p2. Inr (v # vs, p2))))"
      using Suc.prems(2) by simp
  next
    assume "no_oof (parse_value_fuel k p)"
    with Suc.prems(1) show "parse_value_fuel (Suc k) p = parse_value_fuel k p"
      by (simp add: parse_mono_def)
  next
    fix x p1
    assume "no_oof (bind_res (parse_values k n p1) (\<lambda>vs p2. Inr (x # vs, p2)))"
    then have "no_oof (parse_values k n p1)" by (rule no_oof_bindD1)
    from Suc.IH[OF Suc.prems(1) this]
    show "bind_res (parse_values (Suc k) n p1) (\<lambda>vs p2. Inr (x # vs, p2))
          = bind_res (parse_values k n p1) (\<lambda>vs p2. Inr (x # vs, p2))"
      by simp
  qed
qed

lemma parse_array_mono:
  assumes "parse_mono k" and "no_oof (parse_array k p)"
  shows "parse_array (Suc k) p = parse_array k p"
proof -
  obtain len p1 where r: "read_uint p = (len, p1)" by (cases "read_uint p")
  with assms(2) have "no_oof (parse_values k (unat len) p1)"
    by (auto simp: parse_array.simps dest: no_oof_bindD1)
  from parse_values_mono[OF assms(1) this] r show ?thesis
    by (simp add: parse_array.simps)
qed

lemma parse_struct_mono:
  assumes "parse_mono k" and "no_oof (parse_struct k p)"
  shows "parse_struct (Suc k) p = parse_struct k p"
  unfolding parse_struct.simps
proof (rule bind_res_mono)
  show "no_oof (bind_res (parse_struct_sig p)
                  (\<lambda>sig p1. bind_res (parse_values k (unat (ssig_num_members (snd sig))) p1)
                     (\<lambda>vs p2. Inr (Some (Struct sig vs), p2))))"
    using assms(2) by (simp add: parse_struct.simps)
next
  show "parse_struct_sig p = parse_struct_sig p" by simp
next
  fix x p1
  assume "no_oof (bind_res (parse_values k (unat (ssig_num_members (snd x))) p1)
                    (\<lambda>vs p2. Inr (Some (Struct x vs), p2)))"
  then have "no_oof (parse_values k (unat (ssig_num_members (snd x))) p1)"
    by (rule no_oof_bindD1)
  from parse_values_mono[OF assms(1) this]
  show "bind_res (parse_values (Suc k) (unat (ssig_num_members (snd x))) p1)
          (\<lambda>vs p2. Inr (Some (Struct x vs), p2))
        = bind_res (parse_values k (unat (ssig_num_members (snd x))) p1)
          (\<lambda>vs p2. Inr (Some (Struct x vs), p2))"
    by simp
qed

lemma parse_enum_mono:
  assumes "no_oof (parse_enum k p)"
  shows "parse_enum (Suc k) p = parse_enum k p"
proof (cases "version p \<ge> 3")
  case True
  then show ?thesis by (simp add: parse_enum_def)
next
  case False
  with assms have "no_oof (parse_old_enum_sig k p)"
    by (auto simp: parse_enum_def dest: no_oof_bindD1)
  from parse_old_enum_sig_mono[OF scan_mono_all this] False show ?thesis
    by (simp add: parse_enum_def)
qed

lemma parse_mono_step:
  assumes "parse_mono k"
  shows "parse_mono (Suc k)"
  unfolding parse_mono_def
proof (intro allI impI)
  fix p :: Parser
  assume a: "no_oof (parse_value_fuel (Suc k) p)"
  obtain c p1 where r: "read_byte p = (c, p1)" by (cases "read_byte p")
  show "parse_value_fuel (Suc (Suc k)) p = parse_value_fuel (Suc k) p"
  proof (cases c)
    case None
    with r show ?thesis by simp
  next
    case (Some t)
    from a r Some have
      "t = TYPE_ENUM \<Longrightarrow> no_oof (parse_enum k p1)"
      "t = TYPE_ARRAY \<Longrightarrow> no_oof (parse_array k p1)"
      "t = TYPE_STRUCT \<Longrightarrow> no_oof (parse_struct k p1)"
      by (auto dest: no_oof_bindD1)
    then have
      "t = TYPE_ENUM \<Longrightarrow> parse_enum (Suc k) p1 = parse_enum k p1"
      "t = TYPE_ARRAY \<Longrightarrow> parse_array (Suc k) p1 = parse_array k p1"
      "t = TYPE_STRUCT \<Longrightarrow> parse_struct (Suc k) p1 = parse_struct k p1"
      using assms by (auto intro: parse_enum_mono parse_array_mono parse_struct_mono)
    with r Some show ?thesis
      by (simp add: parse_value_fuel.simps(2)[of "Suc k"] parse_value_fuel.simps(2)[of k])
  qed
qed

lemma parse_mono_all: "parse_mono k"
proof (induction k)
  case 0
  show ?case by (simp add: parse_mono_def)
next
  case (Suc k)
  then show ?case by (rule parse_mono_step)
qed

lemma parse_value_fuel_more:
  "no_oof (parse_value_fuel k p) \<Longrightarrow> parse_value_fuel (k + j) p = parse_value_fuel k p"
proof (induction j)
  case 0
  show ?case by simp
next
  case (Suc j)
  from Suc.IH[OF Suc.prems] Suc.prems have "no_oof (parse_value_fuel (k + j) p)" by simp
  with parse_mono_all[of "k + j"] have
    "parse_value_fuel (Suc (k + j)) p = parse_value_fuel (k + j) p"
    by (simp add: parse_mono_def)
  with Suc.IH[OF Suc.prems] show ?case by simp
qed

text \<open>Any fuel above the number of unread bytes gives the result of \<open>parse_value\<close>.\<close>

lemma parse_value_fuel_eq:
  assumes "remaining (file p) < k"
  shows "parse_value_fuel k p = parse_value p"
proof -
  from assms obtain j where k: "k = Suc (remaining (file p)) + j"
    by (metis Suc_leI le_Suc_ex)
  have "no_oof (parse_value_fuel (Suc (remaining (file p))) p)"
    using parse_total_all[of "Suc (remaining (file p))"] by (simp add: parse_total_def)
  from parse_value_fuel_more[OF this, of j] k show ?thesis
    by (simp add: parse_value_def)
qed

lemma parse_call_details_fuel_mono:
  "no_oof (parse_call_details_fuel k call mode p) \<Longrightarrow>
   parse_call_details_fuel (Suc k) call mode p = parse_call_details_fuel k call mode p"
proof (induction k arbitrary: call p)
  case 0
  then show ?case by (simp add: no_oof_def)
next
  case (Suc k)
  obtain c p1 where r: "read_byte p = (c, p1)" by (cases "read_byte p")
  show ?case
  proof (cases c)
    case None
    with r show ?thesis by simp
  next
    case (Some t)
    have arg: "bind_res (parse_arg call mode p1) (\<lambda>call' p2. parse_call_details_fuel (Suc k) call' mode p2)
             = bind_res (parse_arg call mode p1) (\<lambda>call' p2. parse_call_details_fuel k call' mode p2)"
      if "t = CALL_ARG"
    proof (rule bind_res_mono)
      show "no_oof (bind_res (parse_arg call mode p1)
                      (\<lambda>call' p2. parse_call_details_fuel k call' mode p2))"
        using Suc.prems r Some that by simp
    next
      show "parse_arg call mode p1 = parse_arg call mode p1" by simp
    next
      fix x p2
      assume "no_oof (parse_call_details_fuel k x mode p2)"
      then show "parse_call_details_fuel (Suc k) x mode p2 = parse_call_details_fuel k x mode p2"
        by (rule Suc.IH)
    qed
    have ret: "bind_res (parse_value_mode mode p1)
                 (\<lambda>v p2. parse_call_details_fuel (Suc k) (call\<lparr>c_ret := v\<rparr>) mode p2)
             = bind_res (parse_value_mode mode p1)
                 (\<lambda>v p2. parse_call_details_fuel k (call\<lparr>c_ret := v\<rparr>) mode p2)"
      if "t = CALL_RET"
    proof (rule bind_res_mono)
      show "no_oof (bind_res (parse_value_mode mode p1)
                      (\<lambda>v p2. parse_call_details_fuel k (call\<lparr>c_ret := v\<rparr>) mode p2))"
        using Suc.prems r Some that by simp
    next
      show "parse_value_mode mode p1 = parse_value_mode mode p1" by simp
    next
      fix x p2
      assume "no_oof (parse_call_details_fuel k (call\<lparr>c_ret := x\<rparr>) mode p2)"
      then show "parse_call_details_fuel (Suc k) (call\<lparr>c_ret := x\<rparr>) mode p2
                 = parse_call_details_fuel k (call\<lparr>c_ret := x\<rparr>) mode p2"
        by (rule Suc.IH)
    qed
    note L = parse_call_details_fuel.simps(2)[of "Suc k" call mode p]
    note R = parse_call_details_fuel.simps(2)[of k call mode p]
    from arg ret show ?thesis
      by (simp del: parse_call_details_fuel.simps add: L R r Some)
  qed
qed

lemma parse_call_fuel_mono:
  "no_oof (parse_call_fuel k E mode p) \<Longrightarrow>
   parse_call_fuel (Suc k) E mode p = parse_call_fuel k E mode p"
proof (induction k arbitrary: p)
  case 0
  then show ?case by (simp add: no_oof_def)
next
  case (Suc k)
  obtain c p1 where r: "read_byte p = (c, p1)" by (cases "read_byte p")
  show ?case
  proof (cases c)
    case None
    with r show ?thesis by simp
  next
    case (Some t)
    have ent: "bind_res (parse_enter E mode p1) (\<lambda>u p2. parse_call_fuel (Suc k) E mode p2)
             = bind_res (parse_enter E mode p1) (\<lambda>u p2. parse_call_fuel k E mode p2)"
      if "t = EVENT_ENTER"
    proof (rule bind_res_mono)
      show "no_oof (bind_res (parse_enter E mode p1) (\<lambda>u p2. parse_call_fuel k E mode p2))"
        using Suc.prems r Some that by simp
    next
      show "parse_enter E mode p1 = parse_enter E mode p1" by simp
    next
      fix x p2
      assume "no_oof (parse_call_fuel k E mode p2)"
      then show "parse_call_fuel (Suc k) E mode p2 = parse_call_fuel k E mode p2"
        by (rule Suc.IH)
    qed
    note L = parse_call_fuel.simps(2)[of "Suc k" E mode p]
    note R = parse_call_fuel.simps(2)[of k E mode p]
    from ent show ?thesis
      by (simp del: parse_call_fuel.simps add: L R r Some)
  qed
qed

lemma parse_call_details_fuel_eq:
  assumes "remaining (file p) < k"
  shows "parse_call_details_fuel k call mode p = parse_call_details call mode p"
proof -
  have m: "no_oof (parse_call_details_fuel n call mode p) \<Longrightarrow>
           parse_call_details_fuel (n + j) call mode p = parse_call_details_fuel n call mode p"
    for n j
  proof (induction j)
    case 0
    show ?case by simp
  next
    case (Suc j)
    from Suc.IH[OF Suc.prems] Suc.prems
    have "no_oof (parse_call_details_fuel (n + j) call mode p)" by simp
    from parse_call_details_fuel_mono[OF this] Suc.IH[OF Suc.prems] show ?case by simp
  qed
  from assms obtain j where k: "k = Suc (remaining (file p)) + j"
    by (metis Suc_leI le_Suc_ex)
  have "no_oof (parse_call_details_fuel (Suc (remaining (file p))) call mode p)"
    by (rule parse_call_details_fuel_total) simp
  from m[OF this, of j] k show ?thesis
    by (simp add: parse_call_details_def)
qed

text \<open>Any fuel above the number of unread bytes gives the result of \<open>parse_call\<close>.\<close>

lemma parse_call_fuel_eq:
  assumes "remaining (file p) < k"
  shows "parse_call_fuel k E mode p = parse_call E mode p"
proof -
  have m: "no_oof (parse_call_fuel n E mode p) \<Longrightarrow>
           parse_call_fuel (n + j) E mode p = parse_call_fuel n E mode p"
    for n j
  proof (induction j)
    case 0
    show ?case by simp
  next
    case (Suc j)
    from Suc.IH[OF Suc.prems] Suc.prems
    have "no_oof (parse_call_fuel (n + j) E mode p)" by simp
    from parse_call_fuel_mono[OF this] Suc.IH[OF Suc.prems] show ?case by simp
  qed
  from assms obtain j where k: "k = Suc (remaining (file p)) + j"
    by (metis Suc_leI le_Suc_ex)
  have "no_oof (parse_call_fuel (Suc (remaining (file p))) E mode p)"
    by (rule parse_call_fuel_total) simp
  from m[OF this, of j] k show ?thesis
    by (simp add: parse_call_def)
qed

subsection \<open>What a scan changes\<close>

text \<open>
  C6, as amended. \<open>scan_value\<close> builds no value and leaves the stream's bytes, the
  version, the function table, \<open>glGetErrorSig\<close>, the pending calls and \<open>next_call_no\<close>
  unchanged. It does intern the struct, enum and bitmask signatures it meets for the
  first time (\<open>scan_struct\<close>, \<open>scan_enum\<close> and \<open>scan_bitmask\<close> call the
  \<open>parse_*_sig\<close> operations): these three tables can grow, and an entry that is set
  stays as it is.
\<close>

theorem scan_value_frame:
  assumes "scan_value p = Inr (u, p')"
  shows "contents (file p') = contents (file p) \<and> cur (file p) \<le> cur (file p')
         \<and> version p' = version p \<and> next_call_no p' = next_call_no p
         \<and> calls p' = calls p \<and> functions p' = functions p
         \<and> glGetErrorSig p' = glGetErrorSig p
         \<and> grows (structs p) (structs p') \<and> grows (enums p) (enums p')
         \<and> grows (bitmasks p) (bitmasks p')"
  using scan_value_inv[OF assms] by (simp add: value_inv_def file_adv_def)

text \<open>
  The claim as stated fails on a bitmask value whose signature is new: trace version 4,
  then the value \<open>TYPE_BITMASK\<close>, id 0, no flags, value 0. The scan interns bitmask
  signature 0.
\<close>

lemmas scan_defs =
  scan_value_def scan_bitmask_def parse_bitmask_sig_def scan_blob_def
  parse_value_def parse_blob_def

theorem scan_value_interns_counterexample:
  "bitmasks (snd (open_trace 4 [4, 9, 0, 0, 0])) = []
   \<and> scan_value (snd (open_trace 4 [4, 9, 0, 0, 0])) =
       Inr ((), \<lparr>file = \<lparr>contents = [4, 9, 0, 0, 0], cur = 5\<rparr>, version = 4,
                 next_call_no = 0, calls = [], functions = [], structs = [], enums = [],
                 bitmasks = [Some (0, \<lparr>bsig_id = 0, bsig_num_flags = 0, bsig_flags = [],
                                         bsig_offset = 4\<rparr>)],
                 glGetErrorSig = None, next_addr = 1\<rparr>)"
  by (simp add: run_defs scan_defs)

theorem scan_value_frame_witness:
  "functions (snd (projr (scan_value (snd (open_trace 4 [4, 9, 0, 0, 0]))))) = []
   \<and> calls (snd (projr (scan_value (snd (open_trace 4 [4, 9, 0, 0, 0]))))) = []
   \<and> grows [] (bitmasks (snd (projr (scan_value (snd (open_trace 4 [4, 9, 0, 0, 0]))))))"
proof -
  let ?p = "snd (open_trace 4 [4, 9, 0, 0, 0])"
  have r: "scan_value ?p = Inr ((), snd (projr (scan_value ?p)))"
    by (simp add: run_defs scan_defs)
  have p: "functions ?p = []" "calls ?p = []" "bitmasks ?p = []"
    by (simp_all add: run_defs)
  from scan_value_frame[OF r] show ?thesis
    unfolding p by simp
qed

subsection \<open>Call numbers\<close>



lemmas call_defs =
  parse_call_def parse_enter_def parse_leave_def parse_call_details_def parse_arg_def
  parse_function_sig_def parse_value_mode_def parse_value_def parse_uint_def parse_sint_def
  new_Call_def adjust_call_flags_def example_externals_def returned_nos_def


subsection \<open>A LEAVE without a call\<close>

text \<open>
  C10. \<open>parse_leave\<close> returns null when no pending call has the number the LEAVE
  names, and when the stream ends inside the LEAVE's details; \<open>parse_call\<close> hands that
  null to \<open>adjust_call_flags\<close>, which dereferences it. First run: a trace of version 4
  whose first event is a LEAVE for call 0. Second run: ENTER of call 0, then a LEAVE for
  it that is cut off before its \<open>CALL_END\<close>.
\<close>

theorem parse_call_leave_null:
  "parse_leave 0 (snd (read_byte (snd (open_trace 4 [4, 1, 0, 0]))))
     = Inr (None, (snd (open_trace 4 [4, 1, 0, 0]))\<lparr>file := \<lparr>contents = [4, 1, 0, 0], cur = 4\<rparr>\<rparr>)
   \<and> parse_call example_externals 0 (snd (open_trace 4 [4, 1, 0, 0]))
     = Inl Undefined_behaviour
   \<and> parse_call example_externals 0
        (snd (open_trace 4 [4, 0, 0, 0, 1, 0x66, 0, 4, 1, 0, 0]))
     = Inl Undefined_behaviour"
  by code_simp


subsection \<open>Scanning and parsing a blob of 4 GiB\<close>

lemma open_blob_4GiB_trace:
  "snd (open_trace 4 (blob_4GiB_trace payload)) =
     \<lparr>file = \<lparr>contents = blob_4GiB_trace payload, cur = 1\<rparr>, version = 4, next_call_no = 0,
      calls = [], functions = [], structs = [], enums = [], bitmasks = [],
      glGetErrorSig = None, next_addr = 0\<rparr>"
  by (simp add: open_trace_def read_uint_def file_read_uint_def read_uint_loop.simps Let_def
      blob_4GiB_trace_def)

lemma read_uint_4GiB:
  "read_uint (p\<lparr>file := \<lparr>contents = blob_4GiB_trace payload, cur = Suc (Suc 0)\<rparr>\<rparr>)
   = (4294967296, p\<lparr>file := \<lparr>contents = blob_4GiB_trace payload, cur = 7\<rparr>\<rparr>)"
  by (simp add: read_uint_def file_read_uint_def read_uint_loop.simps Let_def
      blob_4GiB_trace_def)

lemma length_blob_4GiB_trace: "length (blob_4GiB_trace payload) = 7 + length payload"
  by (simp add: blob_4GiB_trace_def)

lemma blob_4GiB_trace_tag: "blob_4GiB_trace payload ! Suc 0 = TYPE_BLOB"
  by (simp add: blob_4GiB_trace_def)

lemma blob_4GiB_run:
  assumes "length payload = 2 ^ 32"
  shows "parse_value (p\<lparr>file := \<lparr>contents = blob_4GiB_trace payload, cur = 1\<rparr>\<rparr>)
         = Inr (Some (Blob (2 ^ 32) []),
                p\<lparr>file := \<lparr>contents = blob_4GiB_trace payload, cur = 7\<rparr>\<rparr>)"
    and "scan_value (p\<lparr>file := \<lparr>contents = blob_4GiB_trace payload, cur = 1\<rparr>\<rparr>)
         = Inr ((), p\<lparr>file := \<lparr>contents = blob_4GiB_trace payload, cur = 7 + 2 ^ 32\<rparr>\<rparr>)"
proof -
  have c: "(ucast (4294967296 :: u64) :: u32) = 0" "unat (4294967296 :: u64) = 4294967296"
    by simp_all
  show "parse_value (p\<lparr>file := \<lparr>contents = blob_4GiB_trace payload, cur = 1\<rparr>\<rparr>)
         = Inr (Some (Blob (2 ^ 32) []),
                p\<lparr>file := \<lparr>contents = blob_4GiB_trace payload, cur = 7\<rparr>\<rparr>)"
    unfolding parse_value_def parse_value_fuel.simps
    using assms
    by (simp add: read_byte_def parse_blob_def read_uint_4GiB c file_read_def remaining_def
        length_blob_4GiB_trace blob_4GiB_trace_tag)
  show "scan_value (p\<lparr>file := \<lparr>contents = blob_4GiB_trace payload, cur = 1\<rparr>\<rparr>)
         = Inr ((), p\<lparr>file := \<lparr>contents = blob_4GiB_trace payload, cur = 7 + 2 ^ 32\<rparr>\<rparr>)"
    unfolding scan_value_def scan_value_fuel.simps
    using assms
    by (simp add: read_byte_def scan_blob_def read_uint_4GiB c file_skip_def remaining_def
        length_blob_4GiB_trace blob_4GiB_trace_tag)
qed

text \<open>
  C1. A well-formed blob value of 4 GiB: the tag \<open>TYPE_BLOB\<close>, the varint of
  \<open>2 ^ 32\<close> and \<open>2 ^ 32\<close> payload bytes, in a trace of version 4. Started behind the
  version, at offset 1, \<open>parse_value\<close> stops at offset 7, right behind the length
  (\<open>parse_blob\<close> reads \<open>(unsigned)size = 0\<close> bytes), and \<open>scan_value\<close> stops at
  offset \<open>7 + 2 ^ 32\<close>, behind the payload (\<open>scan_blob\<close> skips \<open>size\<close> bytes).
\<close>

theorem scan_parse_blob_divergence:
  "map_sum id (\<lambda>(v, q). cur (file q))
     (parse_value (snd (open_trace 4 (blob_4GiB_trace (replicate (2 ^ 32) 0))))) = Inr 7
   \<and> map_sum id (\<lambda>(u, q). cur (file q))
     (scan_value (snd (open_trace 4 (blob_4GiB_trace (replicate (2 ^ 32) 0))))) = Inr (7 + 2 ^ 32)"
proof -
  have l: "length (replicate (2 ^ 32) (0 :: byte)) = 2 ^ 32"
    by (rule length_replicate)
  let ?p = "snd (open_trace 4 (blob_4GiB_trace (replicate (2 ^ 32) 0)))"
  have p: "?p = ?p\<lparr>file := \<lparr>contents = blob_4GiB_trace (replicate (2 ^ 32) 0), cur = 1\<rparr>\<rparr>"
    by (simp only: open_blob_4GiB_trace Parser.simps)
  have "parse_value ?p = Inr (Some (Blob (2 ^ 32) []),
          ?p\<lparr>file := \<lparr>contents = blob_4GiB_trace (replicate (2 ^ 32) 0), cur = 7\<rparr>\<rparr>)"
    by (subst p) (rule blob_4GiB_run(1)[OF l])
  moreover have "scan_value ?p = Inr ((),
          ?p\<lparr>file := \<lparr>contents = blob_4GiB_trace (replicate (2 ^ 32) 0), cur = 7 + 2 ^ 32\<rparr>\<rparr>)"
    by (subst p) (rule blob_4GiB_run(2)[OF l])
  ultimately show ?thesis
    by simp
qed

subsection \<open>Where scanning and parsing agree\<close>

lemma ends_inside_back:
  "ends_inside p q \<Longrightarrow> value_inv p1 q \<Longrightarrow> value_inv p p1 \<Longrightarrow> ends_inside p p1 \<and> ends_inside p1 q"
  by (auto simp: ends_inside_def value_inv_def file_adv_def)

lemma parse_sint_scan: "snd (parse_sint p) = scan_sint p"
  by (simp add: parse_sint_def scan_sint_def skip_uint_read_uint split: prod.splits)

lemma parse_uint_scan: "snd (parse_uint p) = scan_uint p"
  by (simp add: parse_uint_def scan_uint_def skip_uint_read_uint split: prod.splits)

lemma parse_opaque_scan: "snd (parse_opaque p) = scan_opaque p"
  by (simp add: parse_opaque_def scan_opaque_def skip_uint_read_uint split: prod.splits)

lemma parse_float_scan: "snd (parse_float p) = scan_float p"
  by (simp add: parse_float_def scan_float_def file_read_def file_skip_def)

lemma parse_double_scan: "snd (parse_double p) = scan_double p"
  by (simp add: parse_double_def scan_double_def file_read_def file_skip_def)

lemma read_sint_skip:
  assumes "read_sint p = Inr (v, q)"
  shows "skip_sint p = q"
proof (cases "cur (file p) < length (contents (file p))")
  case True
  then have b: "read_byte p = (Some (contents (file p) ! cur (file p)), skip_byte p)"
    by (simp add: read_byte_def getc_def skip_byte_def file_skip_def remaining_def)
  from assms b have "snd (read_uint (skip_byte p)) = q"
    by (auto simp: read_sint_def split: if_splits prod.splits)
  then show ?thesis by (simp add: skip_sint_def skip_uint_read_uint)
next
  case False
  then have b: "read_byte p = (None, p)" and s: "skip_byte p = p"
    by (simp_all add: read_byte_def getc_def skip_byte_def file_skip_def remaining_def)
  from False have "skip_uint p = p"
    by (simp add: skip_uint_def file_skip_uint.simps getc_def)
  with assms b s show ?thesis by (simp add: read_sint_def skip_sint_def)
qed

lemma file_skip_small:
  assumes "cur f + min n (remaining f) < length (contents f)"
    and "length (contents f) \<le> 2 ^ 32"
  shows "n < 2 ^ 32" and "n \<le> remaining f"
  using assms by (auto simp: remaining_def min_def split: if_splits)

lemma ucast_small: "unat (n :: u64) < 2 ^ 32 \<Longrightarrow> unat (ucast n :: u32) = unat n"
  by (simp add: unsigned_ucast_eq take_bit_nat_eq_self)

lemma parse_blob_scan:
  assumes "ends_inside p (scan_blob p)"
  shows "snd (parse_blob p) = scan_blob p"
proof -
  obtain n p1 where r: "read_uint p = (n, p1)" by (cases "read_uint p")
  from read_uint_only_file[OF r] have c: "contents (file p1) = contents (file p)"
    by (auto simp: only_file_def file_adv_def)
  show ?thesis
  proof (cases "n = 0")
    case True
    with r show ?thesis by (simp add: parse_blob_def scan_blob_def)
  next
    case False
    with assms r c have "cur (file p1) + min (unat n) (remaining (file p1)) < length (contents (file p1))"
      and "length (contents (file p1)) \<le> 2 ^ 32"
      by (simp_all add: ends_inside_def scan_blob_def file_skip_def)
    from file_skip_small(1)[OF this] have "unat (ucast n :: u32) = unat n"
      by (rule ucast_small)
    with r False show ?thesis
      by (simp add: parse_blob_def scan_blob_def file_read_def file_skip_def)
  qed
qed

lemma read_string_skip:
  assumes "read_string p = Inr (s, q)" and "ends_inside p (skip_string p)"
  shows "skip_string p = q"
proof -
  obtain n p1 where r: "read_uint p = (n, p1)" by (cases "read_uint p")
  from read_uint_only_file[OF r] have c: "contents (file p1) = contents (file p)"
    by (auto simp: only_file_def file_adv_def)
  show ?thesis
  proof (cases "n = 0")
    case True
    with r assms(1) show ?thesis
      by (simp add: read_string_def skip_string_def file_skip_def)
  next
    case False
    with assms(2) r c have "cur (file p1) + min (unat n) (remaining (file p1)) < length (contents (file p1))"
      and "length (contents (file p1)) \<le> 2 ^ 32"
      by (simp_all add: ends_inside_def skip_string_def file_skip_def)
    from file_skip_small(1)[OF this] have "unat (ucast n :: u32) = unat n"
      by (rule ucast_small)
    with r False assms(1) show ?thesis
      by (auto simp: read_string_def skip_string_def file_read_def file_skip_def
          split: if_splits)
  qed
qed

lemma ends_inside_contents:
  "ends_inside p q \<Longrightarrow> contents (file p1) = contents (file p) \<Longrightarrow> ends_inside p1 q"
  by (simp add: ends_inside_def)

lemma value_inv_contents: "value_inv p p1 \<Longrightarrow> contents (file p1) = contents (file p)"
  by (simp add: value_inv_def file_adv_def)

lemma only_file_contents: "only_file p p1 \<Longrightarrow> contents (file p1) = contents (file p)"
  by (auto simp: only_file_def file_adv_def)

lemma parse_values_scan:
  "agree k \<Longrightarrow> parse_values k n p = Inr (vs, q') \<Longrightarrow> scan_values k n p = Inr (u, q) \<Longrightarrow>
   ends_inside p q \<Longrightarrow> q' = q"
proof (induction n arbitrary: p vs)
  case 0
  then show ?case by simp
next
  case (Suc n)
  from Suc.prems(2) obtain v p1' vs' where a: "parse_value_fuel k p = Inr (v, p1')"
    and b: "parse_values k n p1' = Inr (vs', q')"
    by (auto elim!: bind_resE)
  from Suc.prems(3) obtain u1 p1 where c: "scan_value_fuel k p = Inr (u1, p1)"
    and d: "scan_values k n p1 = Inr (u, q)"
    by (auto elim!: bind_resE)
  from ends_inside_back[OF Suc.prems(4) scan_values_inv[OF scan_ok_all d] scan_value_fuel_inv[OF c]]
  have e: "ends_inside p p1" "ends_inside p1 q" by simp_all
  from Suc.prems(1) a c e(1) have "p1' = p1" by (auto simp: agree_def)
  with b have "parse_values k n p1 = Inr (vs', q')" by simp
  from Suc.IH[OF Suc.prems(1) this d e(2)] show ?case .
qed

lemma parse_array_scan:
  assumes "agree k" and "parse_array k p = Inr (v, q')" and "scan_array k p = Inr (u, q)"
    and "ends_inside p q"
  shows "q' = q"
proof -
  obtain n p1 where r: "read_uint p = (n, p1)" by (cases "read_uint p")
  from assms(2) r obtain vs where a: "parse_values k (unat n) p1 = Inr (vs, q')"
    by (auto simp: parse_array.simps elim!: bind_resE)
  from assms(3) r have b: "scan_values k (unat n) p1 = Inr (u, q)"
    by (simp add: scan_array.simps)
  from ends_inside_contents[OF assms(4) only_file_contents[OF read_uint_only_file[OF r]]]
  have "ends_inside p1 q" .
  from parse_values_scan[OF assms(1) a b this] show ?thesis .
qed

lemma parse_struct_scan:
  assumes "agree k" and "parse_struct k p = Inr (v, q')" and "scan_struct k p = Inr (u, q)"
    and "ends_inside p q"
  shows "q' = q"
proof -
  from assms(2) obtain s p1 vs where s: "parse_struct_sig p = Inr (s, p1)"
    and a: "parse_values k (unat (ssig_num_members (snd s))) p1 = Inr (vs, q')"
    by (auto simp: parse_struct.simps elim!: bind_resE)
  from assms(3) s have b: "scan_values k (unat (ssig_num_members (snd s))) p1 = Inr (u, q)"
    by (simp add: scan_struct.simps)
  from ends_inside_contents[OF assms(4) value_inv_contents[OF parse_struct_sig_inv[OF s]]]
  have "ends_inside p1 q" .
  from parse_values_scan[OF assms(1) a b this] show ?thesis .
qed

lemma parse_enum_scan:
  assumes "parse_enum k p = Inr (v, q')" and "scan_enum k p = Inr (u, q)"
  shows "q' = q"
proof (cases "version p \<ge> 3")
  case True
  with assms(1) obtain s p1 x where s: "parse_enum_sig p = Inr (s, p1)"
    and a: "read_sint p1 = Inr (x, q')"
    by (auto simp: parse_enum_def elim!: bind_resE)
  from assms(2) True s have "q = skip_sint p1"
    by (simp add: scan_enum.simps)
  with read_sint_skip[OF a] show ?thesis by simp
next
  case False
  with assms(1) obtain s where s: "parse_old_enum_sig k p = Inr (s, q')"
    by (auto simp: parse_enum_def elim!: bind_resE split: if_splits list.splits)
  with assms(2) False show ?thesis
    by (simp add: scan_enum.simps)
qed

lemma parse_bitmask_scan:
  assumes "parse_bitmask p = Inr (v, q')" and "scan_bitmask p = Inr (u, q)"
  shows "q' = q"
proof -
  from assms(1) obtain s p1 where s: "parse_bitmask_sig p = Inr (s, p1)"
    and a: "snd (read_uint p1) = q'"
    by (auto simp: parse_bitmask_def elim!: bind_resE split: prod.splits)
  from assms(2) s have "q = skip_uint p1" by (simp add: scan_bitmask_def)
  with a show ?thesis by (simp add: skip_uint_read_uint)
qed

lemma parse_string_scan:
  assumes "parse_string p = Inr (v, q')" and "ends_inside p (scan_string p)"
  shows "q' = scan_string p"
proof -
  from assms(1) obtain s where "read_string p = Inr (s, q')"
    by (auto simp: parse_string_def elim!: bind_resE)
  from read_string_skip[OF this] assms(2) show ?thesis by (simp add: scan_string_def)
qed

lemma agree_step:
  assumes "agree k"
  shows "agree (Suc k)"
  unfolding agree_def
proof (intro allI impI)
  fix p :: Parser and v q' u q
  assume a: "parse_value_fuel (Suc k) p = Inr (v, q')"
    and b: "scan_value_fuel (Suc k) p = Inr (u, q)"
    and e: "ends_inside p q"
  obtain c p1 where r: "read_byte p = (c, p1)" by (cases "read_byte p")
  from ends_inside_contents[OF e only_file_contents[OF read_byte_only_file[OF r]]]
  have e1: "ends_inside p1 q" .
  show "q' = q"
  proof (cases c)
    case None
    with a b r show ?thesis by simp
  next
    case (Some t)
    consider "t = TYPE_NULL \<or> t = TYPE_FALSE \<or> t = TYPE_TRUE" | "t = TYPE_SINT"
      | "t = TYPE_UINT" | "t = TYPE_FLOAT" | "t = TYPE_DOUBLE" | "t = TYPE_STRING"
      | "t = TYPE_ENUM" | "t = TYPE_BITMASK" | "t = TYPE_ARRAY" | "t = TYPE_STRUCT"
      | "t = TYPE_BLOB" | "t = TYPE_OPAQUE"
      | "t \<notin> {TYPE_NULL, TYPE_FALSE, TYPE_TRUE, TYPE_SINT, TYPE_UINT, TYPE_FLOAT, TYPE_DOUBLE,
               TYPE_STRING, TYPE_ENUM, TYPE_BITMASK, TYPE_ARRAY, TYPE_STRUCT, TYPE_BLOB,
               TYPE_OPAQUE}"
      by blast
    then show ?thesis
    proof cases
      case 1
      with a b r Some show ?thesis by auto
    next
      case 2
      with a b r Some parse_sint_scan[of p1] show ?thesis by (auto split: prod.splits)
    next
      case 3
      with a b r Some parse_uint_scan[of p1] show ?thesis by (auto split: prod.splits)
    next
      case 4
      with a b r Some parse_float_scan[of p1] show ?thesis by (auto split: prod.splits)
    next
      case 5
      with a b r Some parse_double_scan[of p1] show ?thesis by (auto split: prod.splits)
    next
      case 6
      with a b r Some obtain x where "parse_string p1 = Inr (x, q')" "q = scan_string p1"
        by (auto elim!: bind_resE)
      with parse_string_scan[of p1 x q'] e1 show ?thesis by simp
    next
      case 7
      with a b r Some obtain x where "parse_enum k p1 = Inr (x, q')" "scan_enum k p1 = Inr (u, q)"
        by (auto elim!: bind_resE)
      then show ?thesis by (rule parse_enum_scan)
    next
      case 8
      with a b r Some obtain x where "parse_bitmask p1 = Inr (x, q')" "scan_bitmask p1 = Inr (u, q)"
        by (auto elim!: bind_resE)
      then show ?thesis by (rule parse_bitmask_scan)
    next
      case 9
      with a b r Some have "parse_array k p1 = Inr (v, q')" "scan_array k p1 = Inr (u, q)"
        by auto
      from parse_array_scan[OF assms this e1] show ?thesis .
    next
      case 10
      with a b r Some have "parse_struct k p1 = Inr (v, q')" "scan_struct k p1 = Inr (u, q)"
        by auto
      from parse_struct_scan[OF assms this e1] show ?thesis .
    next
      case 11
      with a b r Some have "q' = snd (parse_blob p1)" "q = scan_blob p1"
        by (auto split: prod.splits)
      with parse_blob_scan[of p1] e1 show ?thesis by simp
    next
      case 12
      with a b r Some parse_opaque_scan[of p1] show ?thesis by (auto split: prod.splits)
    next
      case 13
      with a r Some show ?thesis by simp
    qed
  qed
qed

lemma agree_all: "agree k"
proof (induction k)
  case 0
  show ?case by (simp add: agree_def)
next
  case (Suc k)
  then show ?case by (rule agree_step)
qed

text \<open>
  In a trace of at most 4 GiB, a scan that stops before the end of the stream stops
  exactly where parsing the same value stops, with the same tables.
\<close>

lemma scan_value_parse_value_agree:
  assumes "parse_value p = Inr (v, q')" and "scan_value p = Inr (u, q)" and "ends_inside p q"
  shows "q' = q"
  using agree_all[of "Suc (remaining (file p))"] assms
  unfolding agree_def parse_value_def scan_value_def by blast

subsection \<open>Skipping what the encoder wrote\<close>

lemma advance_0 [simp]: "advance 0 p = p"
  by (simp add: advance_def)





















subsection \<open>Retransmitted signatures\<close>











end
